theory Spec2Isabelle
  imports Complex_Main
begin

section \<open>Configuration and grid\<close>

text \<open>
  The game of \<^verbatim>\<open>grid-game-v4.py\<close>. Cells are pairs of Python integers (the source
  uses two-element lists and tuples for them interchangeably), the grid is a list of
  rows of one-character tiles, and the configuration constants keep their names.
\<close>

type_synonym cell = "int \<times> int"
type_synonym grid = "char list list"

definition GRID_SIZE :: int where "GRID_SIZE = 9"
definition AI_STUN_TURNS :: int where "AI_STUN_TURNS = 2"
definition CLOSE_RANGE :: int where "CLOSE_RANGE = 2"

definition EMPTY :: char where "EMPTY = CHR ''.''"
definition WALL :: char where "WALL = CHR ''#''"

definition DIRS :: "(string \<times> (int \<times> int)) list" where
  "DIRS = [(''north'', (-1, 0)), (''south'', (1, 0)), (''west'', (0, -1)), (''east'', (0, 1))]"

text \<open>\<^verbatim>\<open>grid[r][c]\<close>, read only where the source has checked \<open>0 \<le> r\<close> and \<open>0 \<le> c\<close>.\<close>

definition tile :: "grid \<Rightarrow> cell \<Rightarrow> char" where
  "tile grid p = grid ! nat (fst p) ! nat (snd p)"

text \<open>
  The source reads \<^verbatim>\<open>grid[nr][nc]\<close> for \<open>nr, nc < len(grid)\<close> (in \<^verbatim>\<open>neighbors\<close>) and for
  \<open>nr, nc < GRID_SIZE\<close> (elsewhere); the reads are in range when every row is at least
  as long as the grid is high, and when the grid is \<open>GRID_SIZE\<close> high.
\<close>

definition rows_cover :: "grid \<Rightarrow> bool" where
  "rows_cover grid = list_all (\<lambda>row. length grid \<le> length row) grid"

definition game_grid :: "grid \<Rightarrow> bool" where
  "game_grid grid = (int (length grid) = GRID_SIZE \<and> rows_cover grid)"

section \<open>Pathfinding\<close>

definition neighbors :: "int \<Rightarrow> int \<Rightarrow> grid \<Rightarrow> cell list" where
  "neighbors r c grid =
     (let n = int (length grid) in
      concat (map (\<lambda>(dr, dc).
                let nr = r + dr; nc = c + dc in
                if 0 \<le> nr \<and> nr < n \<and> 0 \<le> nc \<and> nc < n \<and> tile grid (nr, nc) \<noteq> WALL
                then [(nr, nc)] else [])
              (map snd DIRS)))"

datatype error = KeyError

text \<open>
  The dictionary \<^verbatim>\<open>prev\<close>: a visited cell maps to its predecessor, the start cell to
  Python's \<^verbatim>\<open>None\<close>.
\<close>

type_synonym prev_map = "cell \<rightharpoonup> cell option"

text \<open>
  The inner loop \<^verbatim>\<open>while prev[cur] != tuple(start): cur = prev[cur]\<close>. A missing key
  raises; at the start cell \<^verbatim>\<open>prev[cur]\<close> is \<^verbatim>\<open>None\<close>, which differs from the start
  tuple, so \<^verbatim>\<open>cur\<close> becomes \<^verbatim>\<open>None\<close> and the next lookup raises. A cycle in
  \<^verbatim>\<open>prev\<close> makes the loop run forever: the value \<open>None\<close> of the model.
\<close>

partial_function (option) walk_back :: "prev_map \<Rightarrow> cell \<Rightarrow> cell \<Rightarrow> (error + cell) option" where
  "walk_back prev start cur =
     (case prev cur of
        None \<Rightarrow> Some (Inl KeyError)
      | Some None \<Rightarrow> Some (Inl KeyError)
      | Some (Some p) \<Rightarrow> if p = start then Some (Inr cur) else walk_back prev start p)"

declare walk_back.simps [code]

text \<open>
  The \<^verbatim>\<open>for nr, nc in neighbors(r, c, grid)\<close> loop of the search: it either returns
  from \<^verbatim>\<open>bfs_first_step\<close> (the target was met) or falls through with the queue and
  \<^verbatim>\<open>prev\<close> updated.
\<close>

datatype scan = Return "(error + cell option) option" | Continue "cell list" prev_map

fun scan_neighbors :: "cell \<Rightarrow> cell \<Rightarrow> cell \<Rightarrow> cell list \<Rightarrow> cell list \<Rightarrow> prev_map \<Rightarrow> scan" where
  "scan_neighbors start target rc [] q prev = Continue q prev"
| "scan_neighbors start target rc (nb # nbs) q prev =
     (if prev nb = None
      then (let prev' = prev(nb \<mapsto> Some rc) in
            if nb = target
            then Return (case walk_back prev' start nb of
                           None \<Rightarrow> None
                         | Some (Inl e) \<Rightarrow> Some (Inl e)
                         | Some (Inr cur) \<Rightarrow> Some (Inr (Some cur)))
            else scan_neighbors start target rc nbs (q @ [nb]) prev')
      else scan_neighbors start target rc nbs q prev)"

definition unvisited :: "grid \<Rightarrow> prev_map \<Rightarrow> cell set" where
  "unvisited grid prev =
     {p \<in> {0 ..< int (length grid)} \<times> {0 ..< int (length grid)}. prev p = None}"

lemma finite_unvisited: "finite (unvisited grid prev)"
  by (simp add: unvisited_def)

lemma neighbors_in_grid:
  "p \<in> set (neighbors r c grid) \<Longrightarrow>
     p \<in> {0 ..< int (length grid)} \<times> {0 ..< int (length grid)}"
  by (auto simp: neighbors_def Let_def DIRS_def split: if_splits)

lemma unvisited_upd:
  assumes "p \<in> {0 ..< int (length grid)} \<times> {0 ..< int (length grid)}" "prev p = None"
  shows "card (unvisited grid (prev(p \<mapsto> v))) + 1 = card (unvisited grid prev)"
proof -
  have eq: "unvisited grid (prev(p \<mapsto> v)) = unvisited grid prev - {p}"
    by (auto simp: unvisited_def)
  have "p \<in> unvisited grid prev"
    using assms by (simp add: unvisited_def)
  then have "card (unvisited grid prev - {p}) + 1 = card (unvisited grid prev)"
    using finite_unvisited [of grid prev] by (simp add: card_Diff_singleton card_gt_0_iff Suc_leI)
      (metis One_nat_def Suc_pred card_gt_0_iff empty_iff)
  then show ?thesis by (simp add: eq)
qed

lemma scan_neighbors_measure:
  "set nbs \<subseteq> {0 ..< int (length grid)} \<times> {0 ..< int (length grid)} \<Longrightarrow>
   scan_neighbors start target rc nbs q prev = Continue q' prev' \<Longrightarrow>
   card (unvisited grid prev') + length q' = card (unvisited grid prev) + length q"
proof (induction nbs arbitrary: q prev)
  case Nil
  then show ?case by simp
next
  case (Cons nb nbs)
  show ?case
  proof (cases "prev nb = None")
    case True
    with Cons.prems have ne: "nb \<noteq> target"
      by (auto simp: Let_def split: if_splits)
    with True Cons.prems have
      "scan_neighbors start target rc nbs (q @ [nb]) (prev(nb \<mapsto> Some rc)) = Continue q' prev'"
      by (simp add: Let_def)
    moreover have "set nbs \<subseteq> {0 ..< int (length grid)} \<times> {0 ..< int (length grid)}"
      using Cons.prems(1) by simp
    ultimately have
      "card (unvisited grid prev') + length q' =
       card (unvisited grid (prev(nb \<mapsto> Some rc))) + length (q @ [nb])"
      by (rule Cons.IH [rotated])
    moreover have "card (unvisited grid (prev(nb \<mapsto> Some rc))) + 1 = card (unvisited grid prev)"
      using unvisited_upd [of nb grid prev "Some rc"] True Cons.prems(1) by simp
    ultimately show ?thesis by simp
  next
    case False
    with Cons show ?thesis by simp
  qed
qed

text \<open>
  The \<^verbatim>\<open>while q\<close> loop. Every cell put on the queue is an in-grid cell that was not in
  \<^verbatim>\<open>prev\<close> before, so the loop ends after at most \<open>len(grid)\<^sup>2 + 1\<close> rounds.
\<close>

function bfs_loop :: "cell \<Rightarrow> cell \<Rightarrow> grid \<Rightarrow> cell list \<Rightarrow> prev_map \<Rightarrow> (error + cell option) option" where
  "bfs_loop start target grid [] prev = Some (Inr None)"
| "bfs_loop start target grid ((r, c) # q) prev =
     (case scan_neighbors start target (r, c) (neighbors r c grid) q prev of
        Return res \<Rightarrow> res
      | Continue q' prev' \<Rightarrow> bfs_loop start target grid q' prev')"
  by pat_completeness auto
termination
proof (relation "measure (\<lambda>(start, target, grid, q, prev). card (unvisited grid prev) + length q)")
  show "wf (measure (\<lambda>(start, target, grid, q, prev). card (unvisited grid prev) + length q))"
    by simp
next
  fix start target :: cell and grid :: grid and r c :: int and q q' :: "cell list"
    and prev prev' :: prev_map
  assume "scan_neighbors start target (r, c) (neighbors r c grid) q prev = Continue q' prev'"
  then have "card (unvisited grid prev') + length q' = card (unvisited grid prev) + length q"
    using scan_neighbors_measure [of "neighbors r c grid" grid] neighbors_in_grid
    by blast
  then show "((start, target, grid, q', prev'), (start, target, grid, (r, c) # q, prev))
      \<in> measure (\<lambda>(start, target, grid, q, prev). card (unvisited grid prev) + length q)"
    by simp
qed

definition bfs_first_step :: "cell \<Rightarrow> cell \<Rightarrow> grid \<Rightarrow> (error + cell option) option" where
  "bfs_first_step start target grid =
     (if start = target then Some (Inr (Some start))
      else bfs_loop start target grid [start] [start \<mapsto> None])"

section \<open>Moves on the grid\<close>

definition in_bounds :: "cell \<Rightarrow> bool" where
  "in_bounds pos = (0 \<le> fst pos \<and> fst pos < GRID_SIZE \<and> 0 \<le> snd pos \<and> snd pos < GRID_SIZE)"

text \<open>\<^verbatim>\<open>DIRS[move_label]\<close> raises \<^verbatim>\<open>KeyError\<close> for a label that is not a direction.\<close>

definition try_move :: "cell \<Rightarrow> string \<Rightarrow> grid \<Rightarrow> error + cell" where
  "try_move pos move_label grid =
     (case map_of DIRS move_label of
        None \<Rightarrow> Inl KeyError
      | Some (dr, dc) \<Rightarrow>
          (let nr = fst pos + dr; nc = snd pos + dc in
           if 0 \<le> nr \<and> nr < GRID_SIZE \<and> 0 \<le> nc \<and> nc < GRID_SIZE \<and> tile grid (nr, nc) \<noteq> WALL
           then Inr (nr, nc)
           else Inr pos))"

definition manhattan :: "cell \<Rightarrow> cell \<Rightarrow> int" where
  "manhattan a b = \<bar>fst a - fst b\<bar> + \<bar>snd a - snd b\<bar>"

section \<open>The adversaries\<close>

text \<open>
  The loop \<^verbatim>\<open>for name, (dr, dc) in DIRS.items()\<close> that both adversaries run over the four
  candidate cells around \<open>pos\<close>: it keeps the first candidate that is strictly nearer to
  \<open>dest\<close> than the best so far. The primary adversary starts it from
  \<open>(new_ai_pos, 10\<^sup>9)\<close> and measures to the intercept target, the secondary from its own
  cell and its own distance and measures to the player.
\<close>

definition greedy_scan :: "grid \<Rightarrow> cell \<Rightarrow> cell \<Rightarrow> cell \<Rightarrow> cell \<times> int \<Rightarrow> cell \<times> int" where
  "greedy_scan grid pos other dest init =
     fold (\<lambda>(name, (dr, dc)) (best, best_d).
             let cand = (fst pos + dr, snd pos + dc) in
             if in_bounds cand \<and> tile grid cand \<noteq> WALL \<and> cand \<noteq> other
             then (let d = manhattan cand dest in
                   if d < best_d then (cand, d) else (best, best_d))
             else (best, best_d))
          DIRS init"

text \<open>
  The candidates that pass the test of that loop, in the order of \<^verbatim>\<open>DIRS\<close>: the cells
  one step from \<open>pos\<close> that are in bounds, not a wall and not the other adversary's.
\<close>

definition candidates :: "grid \<Rightarrow> cell \<Rightarrow> cell \<Rightarrow> cell list" where
  "candidates grid pos other =
     filter (\<lambda>cand. in_bounds cand \<and> tile grid cand \<noteq> WALL \<and> cand \<noteq> other)
       (map (\<lambda>(name, (dr, dc)). (fst pos + dr, snd pos + dc)) DIRS)"

text \<open>
  What one round of an adversary's \<^verbatim>\<open>for _ in range(moves)\<close> loop leaves behind: the
  adversary's cell, \<^verbatim>\<open>stunned_left\<close> and the trap set (which the source mutates in
  place), and whether the round ended in \<^verbatim>\<open>break\<close>.
\<close>

type_synonym agent_state = "cell \<times> int \<times> cell set"

datatype ctl = Break agent_state | Next agent_state

text \<open>The tail of the loop body, from the collision test to the move.\<close>

definition land :: "cell \<Rightarrow> cell \<Rightarrow> agent_state \<Rightarrow> ctl" where
  "land step other st =
     (case st of (new_pos, stunned_left, traps) \<Rightarrow>
        if step = other then Break (new_pos, stunned_left, traps)
        else if step \<in> traps then Break (step, AI_STUN_TURNS, traps - {step})
        else Next (step, stunned_left, traps))"

definition ai_a_step :: "cell \<Rightarrow> grid \<Rightarrow> cell \<Rightarrow> cell \<Rightarrow> agent_state \<Rightarrow> (error + ctl) option" where
  "ai_a_step player_pos grid goal_pos ai2_pos st =
     (case bfs_first_step player_pos goal_pos grid of
        None \<Rightarrow> None
      | Some (Inl e) \<Rightarrow> Some (Inl e)
      | Some (Inr path_step) \<Rightarrow>
          (let intercept_target = (case path_step of Some p \<Rightarrow> p | None \<Rightarrow> player_pos) in
           case bfs_first_step (fst st) intercept_target grid of
             None \<Rightarrow> None
           | Some (Inl e) \<Rightarrow> Some (Inl e)
           | Some (Inr found) \<Rightarrow>
               (let step = (case found of
                              Some s \<Rightarrow> s
                            | None \<Rightarrow> fst (greedy_scan grid (fst st) ai2_pos intercept_target
                                              (fst st, 10 ^ 9)))
                in Some (Inr (land step ai2_pos st)))))"

fun ai_a_loop :: "nat \<Rightarrow> cell \<Rightarrow> grid \<Rightarrow> cell \<Rightarrow> cell \<Rightarrow> agent_state \<Rightarrow> (error + agent_state) option" where
  "ai_a_loop 0 player_pos grid goal_pos ai2_pos st = Some (Inr st)"
| "ai_a_loop (Suc n) player_pos grid goal_pos ai2_pos st =
     (case ai_a_step player_pos grid goal_pos ai2_pos st of
        None \<Rightarrow> None
      | Some (Inl e) \<Rightarrow> Some (Inl e)
      | Some (Inr (Break st')) \<Rightarrow> Some (Inr st')
      | Some (Inr (Next st')) \<Rightarrow> ai_a_loop n player_pos grid goal_pos ai2_pos st')"

text \<open>
  The counters of the prediction model: a \<^verbatim>\<open>Counter\<close> is a dictionary in insertion
  order, the model maps a context (a tuple of move labels) to a counter.
\<close>

type_synonym 'v counter = "(string \<times> 'v) list"
type_synonym markov = "string list \<rightharpoonup> int counter"

text \<open>
  The pair returned is \<^verbatim>\<open>(new_ai_pos, stunned_left)\<close>; the third component is the trap
  set after the turn.
\<close>

definition ai_a_turn ::
  "cell \<Rightarrow> cell \<Rightarrow> grid \<Rightarrow> cell set \<Rightarrow> string list \<Rightarrow> markov \<Rightarrow> int counter \<Rightarrow> int \<Rightarrow> cell \<Rightarrow> cell
     \<Rightarrow> (error + agent_state) option" where
  "ai_a_turn ai_pos player_pos grid traps this_moves model global_counts stunned goal_pos ai2_pos =
     (if stunned > 0 then Some (Inr (ai_pos, stunned - 1, traps))
      else (let moves = (if manhattan ai_pos player_pos > CLOSE_RANGE + 2 then 2 else 1)
            in ai_a_loop moves player_pos grid goal_pos ai2_pos (ai_pos, 0, traps)))"

text \<open>The cell \<^verbatim>\<open>best\<close> of the secondary adversary, for its cell \<open>new_ai2_pos\<close>.\<close>

definition ai_b_choice :: "cell \<Rightarrow> grid \<Rightarrow> cell \<Rightarrow> cell \<Rightarrow> cell" where
  "ai_b_choice player_pos grid ai_pos new_ai2_pos =
     fst (greedy_scan grid new_ai2_pos ai_pos player_pos
            (new_ai2_pos, manhattan new_ai2_pos player_pos))"

definition ai_b_step :: "cell \<Rightarrow> grid \<Rightarrow> cell \<Rightarrow> agent_state \<Rightarrow> ctl" where
  "ai_b_step player_pos grid ai_pos st =
     (let best = ai_b_choice player_pos grid ai_pos (fst st)
      in land best ai_pos st)"

fun ai_b_loop :: "nat \<Rightarrow> cell \<Rightarrow> grid \<Rightarrow> cell \<Rightarrow> agent_state \<Rightarrow> agent_state" where
  "ai_b_loop 0 player_pos grid ai_pos st = st"
| "ai_b_loop (Suc n) player_pos grid ai_pos st =
     (case ai_b_step player_pos grid ai_pos st of
        Break st' \<Rightarrow> st'
      | Next st' \<Rightarrow> ai_b_loop n player_pos grid ai_pos st')"

definition ai_b_turn :: "cell \<Rightarrow> cell \<Rightarrow> grid \<Rightarrow> cell set \<Rightarrow> int \<Rightarrow> cell \<Rightarrow> agent_state" where
  "ai_b_turn ai2_pos player_pos grid traps stunned ai_pos =
     (if stunned > 0 then (ai2_pos, stunned - 1, traps)
      else (let moves = (if manhattan ai2_pos player_pos > CLOSE_RANGE + 2 then 2 else 1)
            in ai_b_loop moves player_pos grid ai_pos (ai2_pos, 0, traps)))"

section \<open>The record store\<close>

text \<open>
  One entry of the list \<^verbatim>\<open>"games"\<close> of the memory file; the fields are the keys
  \<^verbatim>\<open>"moves"\<close>, \<^verbatim>\<open>"result"\<close>, \<^verbatim>\<open>"grid"\<close> and \<^verbatim>\<open>"successful_traps"\<close>.
\<close>

record game =
  g_moves :: "string list"
  g_result :: string
  g_grid :: int
  g_successful_traps :: int

text \<open>
  The memory file as \<^verbatim>\<open>load_memory\<close> meets it: absent, not readable as JSON, or the
  document \<^verbatim>\<open>{"games": [...]}\<close> that \<^verbatim>\<open>save_game\<close> writes. A readable document of any
  other shape is outside this model.
\<close>

datatype memory_file = NoFile | Unreadable | Stored "game list"

definition load_memory :: "memory_file \<Rightarrow> game list" where
  "load_memory path = (case path of NoFile \<Rightarrow> [] | Unreadable \<Rightarrow> [] | Stored games \<Rightarrow> games)"

definition save_game :: "string list \<Rightarrow> string \<Rightarrow> memory_file \<Rightarrow> int \<Rightarrow> memory_file" where
  "save_game moves result path successful_traps =
     Stored (load_memory path @
       [\<lparr>g_moves = moves, g_result = result, g_grid = GRID_SIZE,
         g_successful_traps = successful_traps\<rparr>])"

section \<open>The prediction model\<close>

definition MARKOV_ORDER :: int where "MARKOV_ORDER = 2"


text \<open>\<^verbatim>\<open>c[m] += v\<close>: a key that is new goes to the end.\<close>

definition counter_add :: "'v::plus counter \<Rightarrow> string \<Rightarrow> 'v \<Rightarrow> 'v counter" where
  "counter_add c m v =
     (if m \<in> fst ` set c then map (\<lambda>(k, w). if k = m then (k, w + v) else (k, w)) c
      else c @ [(m, v)])"


definition counter_count :: "'v::{plus,one} counter \<Rightarrow> string list \<Rightarrow> 'v counter" where
  "counter_count c seq = fold (\<lambda>m c'. counter_add c' m 1) seq c"

text \<open>
  The loop \<^verbatim>\<open>for k in range(1, order+1)\<close> of \<^verbatim>\<open>build_markov_model\<close>, with its
  \<^verbatim>\<open>break\<close>; \<^verbatim>\<open>seq[i-k:i]\<close> is read with \<open>0 \<le> i - k\<close> and \<open>i < len(seq)\<close>.
\<close>

fun context_loop :: "string list \<Rightarrow> int \<Rightarrow> int list \<Rightarrow> markov \<Rightarrow> markov" where
  "context_loop seq i [] model = model"
| "context_loop seq i (k # ks) model =
     (if i - k < 0 then model
      else (let ctx = take (nat k) (drop (nat (i - k)) seq);
                old = (case model ctx of None \<Rightarrow> [] | Some c \<Rightarrow> c)
            in context_loop seq i ks (model(ctx \<mapsto> counter_add old (seq ! nat i) 1))))"

definition build_markov_model :: "game list \<Rightarrow> int \<Rightarrow> markov \<times> int counter" where
  "build_markov_model games order =
     fold (\<lambda>g (model, global_counts).
             let seq = g_moves g
             in (fold (\<lambda>i. context_loop seq i [1 .. order]) [0 .. int (length seq) - 1] model,
                 counter_count global_counts seq))
          games (Map.empty, [])"






section \<open>The game loop\<close>

text \<open>
  The key codes that \<^verbatim>\<open>getch\<close> returns: \<^verbatim>\<open>ord('q')\<close>, \<^verbatim>\<open>ord('t')\<close> and the four arrow
  keys of curses.
\<close>

definition ord_q :: int where "ord_q = 113"
definition ord_t :: int where "ord_t = 116"
definition KEY_DOWN :: int where "KEY_DOWN = 258"
definition KEY_UP :: int where "KEY_UP = 259"
definition KEY_LEFT :: int where "KEY_LEFT = 260"
definition KEY_RIGHT :: int where "KEY_RIGHT = 261"
definition NUM_TRAPS :: int where "NUM_TRAPS = 3"

definition DIR_KEYS :: "(int \<times> string) list" where
  "DIR_KEYS = [(KEY_UP, ''north''), (KEY_DOWN, ''south''), (KEY_LEFT, ''west''), (KEY_RIGHT, ''east'')]"

text \<open>The local variables of \<^verbatim>\<open>main\<close> that change from turn to turn.\<close>

record game_state =
  player_pos :: cell
  ai_pos :: cell
  ai2_pos :: cell
  traps :: "cell set"
  traps_left :: int
  this_game_moves :: "string list"
  ai_stunned :: int
  ai2_stunned :: int
  msg :: string
  turn :: int
  successful_traps :: int

text \<open>
  A turn either leaves the game running or ends \<^verbatim>\<open>main\<close>: then it has called
  \<^verbatim>\<open>save_game\<close> with the result label, and the memory file is what that call wrote.
\<close>

datatype outcome = Playing game_state | Terminal string game_state memory_file

text \<open>The player's part of a turn, for a key other than \<^verbatim>\<open>q\<close>.\<close>

definition player_action :: "int \<Rightarrow> grid \<Rightarrow> game_state \<Rightarrow> error + game_state" where
  "player_action ch grid st =
     (if ch = ord_t then
        (if traps_left st > 0 \<and> player_pos st \<notin> traps st
         then Inr (st\<lparr>traps := insert (player_pos st) (traps st),
                       traps_left := traps_left st - 1, msg := ''Trap placed.''\<rparr>)
         else Inr (st\<lparr>msg := ''No traps left or trap already here.''\<rparr>))
      else (case map_of DIR_KEYS ch of
              Some move_label \<Rightarrow>
                (case try_move (player_pos st) move_label grid of
                   Inl e \<Rightarrow> Inl e
                 | Inr new_pos \<Rightarrow>
                     if new_pos \<noteq> player_pos st
                     then Inr (st\<lparr>player_pos := new_pos,
                                   this_game_moves := this_game_moves st @ [move_label]\<rparr>)
                     else Inr (st\<lparr>msg := ''Blocked.''\<rparr>))
            | None \<Rightarrow> Inr (st\<lparr>msg := ''Use arrows to move, 't' for trap, 'q' to quit.''\<rparr>)))"

text \<open>The adversaries' part of a turn: the primary first, then the secondary.\<close>

definition adversaries :: "grid \<Rightarrow> cell \<Rightarrow> markov \<Rightarrow> int counter \<Rightarrow> game_state \<Rightarrow> (error + game_state) option" where
  "adversaries grid goal_pos model global_counts st =
     (case ai_a_turn (ai_pos st) (player_pos st) grid (traps st) (this_game_moves st) model
             global_counts (ai_stunned st) goal_pos (ai2_pos st) of
        None \<Rightarrow> None
      | Some (Inl e) \<Rightarrow> Some (Inl e)
      | Some (Inr (a, a_stunned, traps1)) \<Rightarrow>
          (let st1 = st\<lparr>ai_pos := a, ai_stunned := a_stunned, traps := traps1\<rparr>;
               st2 = (if a_stunned > 0 \<and> ai_stunned st = 0
                      then st1\<lparr>msg := ''AI A stunned!'',
                               successful_traps := successful_traps st1 + 1\<rparr>
                      else st1)
           in case ai_b_turn (ai2_pos st2) (player_pos st2) grid (traps st2) (ai2_stunned st2)
                     (ai_pos st2) of
                (b, b_stunned, traps2) \<Rightarrow>
                  (let st3 = st2\<lparr>ai2_pos := b, ai2_stunned := b_stunned, traps := traps2\<rparr>
                   in Some (Inr (if b_stunned > 0 \<and> ai2_stunned st2 = 0
                                 then st3\<lparr>msg := ''AI B stunned!'',
                                          successful_traps := successful_traps st3 + 1\<rparr>
                                 else st3)))))"

text \<open>One round of the \<^verbatim>\<open>while True\<close> loop of \<^verbatim>\<open>main\<close>, for the key \<open>ch\<close>.\<close>

definition game_turn ::
  "grid \<Rightarrow> cell \<Rightarrow> markov \<Rightarrow> int counter \<Rightarrow> int \<Rightarrow> game_state \<Rightarrow> memory_file \<Rightarrow> (error + outcome) option" where
  "game_turn grid goal_pos model global_counts ch st0 path =
     (let st = st0\<lparr>msg := []\<rparr> in
      if ch = ord_q
      then Some (Inr (Terminal ''quit'' st
                        (save_game (this_game_moves st) ''quit'' path (successful_traps st))))
      else (case player_action ch grid st of
              Inl e \<Rightarrow> Some (Inl e)
            | Inr st1 \<Rightarrow>
                if player_pos st1 = goal_pos
                then Some (Inr (Terminal ''win'' st1
                                  (save_game (this_game_moves st1) ''win'' path (successful_traps st1))))
                else (case adversaries grid goal_pos model global_counts st1 of
                        None \<Rightarrow> None
                      | Some (Inl e) \<Rightarrow> Some (Inl e)
                      | Some (Inr st2) \<Rightarrow>
                          if ai_pos st2 = player_pos st2 \<or> ai2_pos st2 = player_pos st2
                          then Some (Inr (Terminal ''loss'' st2
                                            (save_game (this_game_moves st2) ''loss'' path
                                               (successful_traps st2))))
                          else Some (Inr (Playing (st2\<lparr>turn := turn st2 + 1\<rparr>))))))"

text \<open>
  The loop over the keys typed. When the keys run out the game is still running
  (\<^verbatim>\<open>getch\<close> waits): the result is the state reached.
\<close>

fun main_loop ::
  "grid \<Rightarrow> cell \<Rightarrow> markov \<Rightarrow> int counter \<Rightarrow> int list \<Rightarrow> game_state \<Rightarrow> memory_file \<Rightarrow> (error + outcome) option" where
  "main_loop grid goal_pos model global_counts [] st path = Some (Inr (Playing st))"
| "main_loop grid goal_pos model global_counts (ch # chs) st path =
     (case game_turn grid goal_pos model global_counts ch st path of
        Some (Inr (Playing st')) \<Rightarrow> main_loop grid goal_pos model global_counts chs st' path
      | other \<Rightarrow> other)"

text \<open>
  \<^verbatim>\<open>main\<close>, with the random grid of \<^verbatim>\<open>make_grid\<close> and the random cells of
  \<^verbatim>\<open>place_entities\<close> as arguments.
\<close>

definition main :: "memory_file \<Rightarrow> grid \<Rightarrow> cell \<Rightarrow> cell \<Rightarrow> cell \<Rightarrow> cell \<Rightarrow> int list \<Rightarrow> (error + outcome) option" where
  "main path grid player0 ai0 ai20 goal_pos chs =
     (case build_markov_model (load_memory path) MARKOV_ORDER of
        (model, global_counts) \<Rightarrow>
          main_loop grid goal_pos model global_counts chs
            \<lparr>player_pos = player0, ai_pos = ai0, ai2_pos = ai20, traps = {},
             traps_left = NUM_TRAPS, this_game_moves = [], ai_stunned = 0, ai2_stunned = 0,
             msg = [], turn = 1, successful_traps = 0\<rparr>
            path)"

section \<open>Shortest paths on the grid\<close>

text \<open>
  The graph that the search explores: from a cell one may step to each cell that
  \<^verbatim>\<open>neighbors\<close> yields for it. \<open>walk grid start k p\<close> says that \<open>k\<close> such steps lead
  from \<open>start\<close> to \<open>p\<close>; the distance is the least such \<open>k\<close>.
\<close>

definition adjacent :: "grid \<Rightarrow> cell \<Rightarrow> cell set" where
  "adjacent grid p = set (neighbors (fst p) (snd p) grid)"

inductive walk :: "grid \<Rightarrow> cell \<Rightarrow> nat \<Rightarrow> cell \<Rightarrow> bool" for grid :: grid and start :: cell where
  walk_here: "walk grid start 0 start"
| walk_step: "walk grid start k p \<Longrightarrow> q \<in> adjacent grid p \<Longrightarrow> walk grid start (Suc k) q"

definition reachable :: "grid \<Rightarrow> cell \<Rightarrow> cell \<Rightarrow> bool" where
  "reachable grid start p = (\<exists>k. walk grid start k p)"

definition distance :: "grid \<Rightarrow> cell \<Rightarrow> cell \<Rightarrow> nat" where
  "distance grid start p = (LEAST k. walk grid start k p)"

text \<open>
  What holds of \<^verbatim>\<open>prev\<close> throughout the search: only the start maps to \<^verbatim>\<open>None\<close>, and
  every other visited cell maps to a visited cell next to it that is one step nearer
  to the start.
\<close>

definition pred_tree :: "grid \<Rightarrow> cell \<Rightarrow> prev_map \<Rightarrow> bool" where
  "pred_tree grid start prev =
     (prev start = Some None
      \<and> (\<forall>v. prev v = Some None \<longrightarrow> v = start)
      \<and> (\<forall>v p. prev v = Some (Some p) \<longrightarrow>
             prev p \<noteq> None \<and> v \<in> adjacent grid p
             \<and> distance grid start v = Suc (distance grid start p))
      \<and> (\<forall>v. prev v \<noteq> None \<longrightarrow> reachable grid start v))"

text \<open>
  What holds of the queue: its cells are visited, they stand in the order of their
  distance from the start, none is more than one step farther than the first, and
  every visited cell that is not queued has all its neighbours visited.
\<close>

definition frontier :: "grid \<Rightarrow> cell \<Rightarrow> cell list \<Rightarrow> prev_map \<Rightarrow> bool" where
  "frontier grid start q prev =
     ((\<forall>v\<in>set q. prev v \<noteq> None)
      \<and> sorted (map (distance grid start) q)
      \<and> (\<forall>v\<in>set q. distance grid start v \<le> Suc (distance grid start (hd q)))
      \<and> (\<forall>u. prev u \<noteq> None \<and> u \<notin> set q \<longrightarrow> (\<forall>v\<in>adjacent grid u. prev v \<noteq> None)))"

text \<open>
  What the search returns when it meets the target: a cell next to the start from
  which the target is one step nearer than from the start.
\<close>

definition first_step_found :: "grid \<Rightarrow> cell \<Rightarrow> cell \<Rightarrow> (error + cell option) option \<Rightarrow> bool" where
  "first_step_found grid start target res =
     (\<exists>x d. res = Some (Inr (Some x)) \<and> x \<in> adjacent grid start
            \<and> walk grid x d target \<and> distance grid start target = Suc d)"

section \<open>Properties of turns and states\<close>


text \<open>A cell an entity may stand on, and a state whose three movers stand on such cells.\<close>

definition open_cell :: "grid \<Rightarrow> cell \<Rightarrow> bool" where
  "open_cell grid p = (in_bounds p \<and> tile grid p \<noteq> WALL)"

definition positions_open :: "grid \<Rightarrow> game_state \<Rightarrow> bool" where
  "positions_open grid st =
     (open_cell grid (player_pos st) \<and> open_cell grid (ai_pos st) \<and> open_cell grid (ai2_pos st))"

fun outcome_state :: "outcome \<Rightarrow> game_state" where
  "outcome_state (Playing st) = st"
| "outcome_state (Terminal result st path) = st"

section \<open>Stunned adversaries\<close>

text \<open>
  Claim C8. An adversary whose stun counter is positive when its turn starts stays on
  its cell, its counter goes down by exactly one, and the trap set is returned as it
  was: the turn has no other result.
\<close>

theorem stunned_turn_skips:
  assumes "0 < stunned"
  shows "ai_a_turn apos ppos grid trs mvs model gcounts stunned goal a2pos
           = Some (Inr (apos, stunned - 1, trs))
       \<and> ai_b_turn a2pos ppos grid trs stunned apos = (a2pos, stunned - 1, trs)"
  using assms by (simp add: ai_a_turn_def ai_b_turn_def)

theorem stunned_turn_skips_witness:
  "(0::int) < 2
   \<and> ai_a_turn (3, 4) (0, 0) [] {(1, 1)} [] Map.empty [] 2 (8, 8) (5, 5)
       = Some (Inr ((3, 4), 1, {(1, 1)}))
   \<and> ai_b_turn (5, 5) (0, 0) [] {(1, 1)} 2 (3, 4) = ((5, 5), 1, {(1, 1)})"
proof -
  have h: "(0::int) < 2" by simp
  show ?thesis
    using stunned_turn_skips [OF h, of "(3, 4)" "(0, 0)" "[]" "{(1, 1)}" "[]" Map.empty "[]"
        "(8, 8)" "(5, 5)"]
    by simp
qed

section \<open>Player moves\<close>

text \<open>
  Claim C9. On a game grid, for a direction label of \<^verbatim>\<open>DIRS\<close>, with delta \<open>(dr, dc)\<close>, \<^verbatim>\<open>try_move\<close>
  returns the cell one unit step away when that cell is in bounds and not a wall, and
  the position it was given otherwise; a blocked move, tried again from the position
  returned, is blocked again and returns the same position.
\<close>

theorem try_move_step_or_stay:
  assumes "game_grid grid" and "map_of DIRS move_label = Some (dr, dc)"
  shows "manhattan (r, c) (r + dr, c + dc) = 1
    \<and> try_move (r, c) move_label grid
        = Inr (if in_bounds (r + dr, c + dc) \<and> tile grid (r + dr, c + dc) \<noteq> WALL
               then (r + dr, c + dc) else (r, c))
    \<and> (\<not> (in_bounds (r + dr, c + dc) \<and> tile grid (r + dr, c + dc) \<noteq> WALL) \<longrightarrow>
         try_move (r, c) move_label grid = Inr (r, c)
         \<and> (case try_move (r, c) move_label grid of
              Inl e \<Rightarrow> False
            | Inr pos' \<Rightarrow> try_move pos' move_label grid = Inr (r, c)))"
proof -
  have unit: "manhattan (r, c) (r + dr, c + dc) = 1"
    using assms(2) by (auto simp: DIRS_def manhattan_def split: if_splits)
  have mv: "try_move (r, c) move_label grid
        = Inr (if in_bounds (r + dr, c + dc) \<and> tile grid (r + dr, c + dc) \<noteq> WALL
               then (r + dr, c + dc) else (r, c))"
    using assms(2) by (simp add: try_move_def in_bounds_def Let_def)
  show ?thesis
    using unit mv by simp
qed

theorem try_move_step_or_stay_witness:
  "game_grid [''.........'', ''.........'', ''.........'', ''.........'', ''.........'',
              ''.........'', ''.........'', ''.........'', ''.........'']
   \<and> map_of DIRS ''north'' = Some (-1, 0)
   \<and> try_move (0, 3) ''north''
        [''.........'', ''.........'', ''.........'', ''.........'', ''.........'',
         ''.........'', ''.........'', ''.........'', ''.........''] = Inr (0, 3)
   \<and> try_move (1, 3) ''north''
        [''.........'', ''.........'', ''.........'', ''.........'', ''.........'',
         ''.........'', ''.........'', ''.........'', ''.........''] = Inr (0, 3)"
proof -
  let ?g = "[''.........'', ''.........'', ''.........'', ''.........'', ''.........'',
             ''.........'', ''.........'', ''.........'', ''.........'']"
  have gg: "game_grid ?g"
    by (simp add: game_grid_def rows_cover_def GRID_SIZE_def)
  have h: "map_of DIRS ''north'' = Some (-1, 0)"
    by (simp add: DIRS_def)
  have "try_move (0, 3) ''north'' ?g = Inr (0, 3)"
    using try_move_step_or_stay [OF gg h, of 0 3] by (simp add: in_bounds_def)
  moreover have "try_move (1, 3) ''north'' ?g = Inr (0, 3)"
    using try_move_step_or_stay [OF gg h, of 1 3]
    by (simp add: in_bounds_def GRID_SIZE_def tile_def WALL_def)
  ultimately show ?thesis using gg h by simp
qed

section \<open>The primary adversary and the prediction model\<close>

text \<open>
  Claim C2, as stated: some grid, positions, traps, stun state and session moves exist
  for which two prediction models give different results of \<^verbatim>\<open>ai_a_turn\<close>. The source
  passes the model to \<^verbatim>\<open>ai_a_turn\<close> and never reads it, so no such input exists.
\<close>

theorem ai_a_turn_model_dependence_refuted:
  "\<not> (\<exists>apos ppos grid trs mvs stunned goal a2pos model1 gcounts1 model2 gcounts2.
         ai_a_turn apos ppos grid trs mvs model1 gcounts1 stunned goal a2pos
         \<noteq> ai_a_turn apos ppos grid trs mvs model2 gcounts2 stunned goal a2pos)"
  by (simp add: ai_a_turn_def)

text \<open>
  Claim C2, amended. The result of \<^verbatim>\<open>ai_a_turn\<close> is the same for every prediction
  model, every table of global counts and every list of session moves: the primary
  adversary's move is decided by the grid, the positions, the traps and the stun
  counter alone.
\<close>

theorem ai_a_turn_ignores_model:
  "ai_a_turn apos ppos grid trs mvs1 model1 gcounts1 stunned goal a2pos
     = ai_a_turn apos ppos grid trs mvs2 model2 gcounts2 stunned goal a2pos"
  by (simp add: ai_a_turn_def)

section \<open>The secondary adversary's choice\<close>

text \<open>The four-way loop is a fold over the candidates that pass its test.\<close>

lemma fold_filter_map:
  "fold (\<lambda>x acc. if P (g x) then h (g x) acc else acc) xs a = fold h (filter P (map g xs)) a"
  by (induction xs arbitrary: a) auto

lemma greedy_scan_candidates:
  "greedy_scan grid pos other dest init =
     fold (\<lambda>cand (best, best_d).
             if manhattan cand dest < best_d then (cand, manhattan cand dest) else (best, best_d))
          (candidates grid pos other) init"
proof -
  let ?P = "\<lambda>cand. in_bounds cand \<and> tile grid cand \<noteq> WALL \<and> cand \<noteq> other"
  let ?g = "\<lambda>(name :: string, (dr, dc)). (fst pos + dr, snd pos + dc)"
  let ?h = "\<lambda>cand (best, best_d).
             if manhattan cand dest < best_d then (cand, manhattan cand dest) else (best, best_d)"
  have "(\<lambda>(name :: string, (dr, dc)) (best, best_d).
             let cand = (fst pos + dr, snd pos + dc) in
             if in_bounds cand \<and> tile grid cand \<noteq> WALL \<and> cand \<noteq> other
             then (let d = manhattan cand dest in
                   if d < best_d then (cand, d) else (best, best_d))
             else (best, best_d))
        = (\<lambda>x acc. if ?P (?g x) then ?h (?g x) acc else acc)"
    by (simp add: fun_eq_iff Let_def split: prod.splits)
  then have "greedy_scan grid pos other dest init
        = fold (\<lambda>x acc. if ?P (?g x) then ?h (?g x) acc else acc) DIRS init"
    by (simp only: greedy_scan_def)
  also have "\<dots> = fold ?h (filter ?P (map ?g DIRS)) init"
    by (rule fold_filter_map)
  finally show ?thesis
    by (simp only: candidates_def)
qed

lemma fold_nearest:
  fixes d :: "'a \<Rightarrow> int"
  assumes "fold (\<lambda>cand (best, best_d). if d cand < best_d then (cand, d cand) else (best, best_d))
             cs (b0, d0) = (b, bd)"
  shows "(b = b0 \<and> bd = d0 \<and> (\<forall>c\<in>set cs. d0 \<le> d c))
       \<or> (\<exists>i<length cs. cs ! i = b \<and> bd = d b \<and> d b < d0
             \<and> (\<forall>c\<in>set cs. d b \<le> d c) \<and> (\<forall>j<i. d b < d (cs ! j)))"
  using assms
proof (induction cs arbitrary: b0 d0)
  case Nil
  then show ?case by simp
next
  case (Cons c cs)
  show ?case
  proof (cases "d c < d0")
    case True
    with Cons.prems have
      "fold (\<lambda>cand (best, best_d). if d cand < best_d then (cand, d cand) else (best, best_d))
         cs (c, d c) = (b, bd)"
      by simp
    from Cons.IH [OF this] show ?thesis
    proof
      assume "b = c \<and> bd = d c \<and> (\<forall>c'\<in>set cs. d c \<le> d c')"
      with True have "0 < length (c # cs) \<and> (c # cs) ! 0 = b \<and> bd = d b \<and> d b < d0
             \<and> (\<forall>c'\<in>set (c # cs). d b \<le> d c') \<and> (\<forall>j<0. d b < d ((c # cs) ! j))"
        by simp
      then show ?thesis by blast
    next
      assume "\<exists>i<length cs. cs ! i = b \<and> bd = d b \<and> d b < d c
             \<and> (\<forall>c'\<in>set cs. d b \<le> d c') \<and> (\<forall>j<i. d b < d (cs ! j))"
      then obtain i where i: "i < length cs" "cs ! i = b" "bd = d b" "d b < d c"
        "\<forall>c'\<in>set cs. d b \<le> d c'" "\<forall>j<i. d b < d (cs ! j)"
        by blast
      have "\<forall>j<Suc i. d b < d ((c # cs) ! j)"
        using i(4,6) by (auto simp: less_Suc_eq_0_disj)
      with i True have "Suc i < length (c # cs) \<and> (c # cs) ! Suc i = b \<and> bd = d b \<and> d b < d0
             \<and> (\<forall>c'\<in>set (c # cs). d b \<le> d c') \<and> (\<forall>j<Suc i. d b < d ((c # cs) ! j))"
        by auto
      then show ?thesis by blast
    qed
  next
    case False
    with Cons.prems have
      "fold (\<lambda>cand (best, best_d). if d cand < best_d then (cand, d cand) else (best, best_d))
         cs (b0, d0) = (b, bd)"
      by simp
    from Cons.IH [OF this] show ?thesis
    proof
      assume "b = b0 \<and> bd = d0 \<and> (\<forall>c'\<in>set cs. d0 \<le> d c')"
      with False show ?thesis by auto
    next
      assume "\<exists>i<length cs. cs ! i = b \<and> bd = d b \<and> d b < d0
             \<and> (\<forall>c'\<in>set cs. d b \<le> d c') \<and> (\<forall>j<i. d b < d (cs ! j))"
      then obtain i where i: "i < length cs" "cs ! i = b" "bd = d b" "d b < d0"
        "\<forall>c'\<in>set cs. d b \<le> d c'" "\<forall>j<i. d b < d (cs ! j)"
        by blast
      have "\<forall>j<Suc i. d b < d ((c # cs) ! j)"
        using i(4,6) False by (auto simp: less_Suc_eq_0_disj)
      with i False have "Suc i < length (c # cs) \<and> (c # cs) ! Suc i = b \<and> bd = d b \<and> d b < d0
             \<and> (\<forall>c'\<in>set (c # cs). d b \<le> d c') \<and> (\<forall>j<Suc i. d b < d ((c # cs) ! j))"
        by auto
      then show ?thesis by blast
    qed
  qed
qed

text \<open>
  Claim C6, amended. On a game grid, at each round the secondary adversary hands to the collision and
  trap tests the cell \<open>best\<close>, chosen without the goal, the intercept target or the
  prediction model (none is an argument of \<^verbatim>\<open>ai_b_turn\<close>). When some candidate (in
  bounds, not a wall, not the primary adversary's cell) is strictly nearer to the
  player than the adversary's own cell, \<open>best\<close> is the candidate of least Manhattan
  distance to the player, the first such in the order of \<^verbatim>\<open>DIRS\<close>; when none is,
  \<open>best\<close> is the adversary's own cell and it does not move.
\<close>

theorem secondary_picks_strictly_nearer:
  fixes grid :: grid and pos player apos :: cell
  assumes "game_grid grid"
  defines "cands \<equiv> candidates grid pos apos"
    and "best \<equiv> ai_b_choice player grid apos pos"
  shows "ai_b_step player grid apos (pos, stunned_left, trs) = land best apos (pos, stunned_left, trs)
    \<and> (if \<exists>c\<in>set cands. manhattan c player < manhattan pos player
       then \<exists>i<length cands. best = cands ! i
              \<and> manhattan best player < manhattan pos player
              \<and> (\<forall>c\<in>set cands. manhattan best player \<le> manhattan c player)
              \<and> (\<forall>j<i. manhattan best player < manhattan (cands ! j) player)
       else best = pos)"
proof -
  obtain b bd where f:
    "fold (\<lambda>cand (best, best_d).
             if manhattan cand player < best_d then (cand, manhattan cand player) else (best, best_d))
          cands (pos, manhattan pos player) = (b, bd)"
    by fastforce
  then have best: "best = b"
    by (simp add: best_def cands_def ai_b_choice_def greedy_scan_candidates)
  have step: "ai_b_step player grid apos (pos, stunned_left, trs)
                = land best apos (pos, stunned_left, trs)"
    by (simp add: ai_b_step_def best_def)
  from fold_nearest [OF f] show ?thesis
  proof
    assume "b = pos \<and> bd = manhattan pos player
              \<and> (\<forall>c\<in>set cands. manhattan pos player \<le> manhattan c player)"
    then show ?thesis using best step by fastforce
  next
    assume "\<exists>i<length cands. cands ! i = b \<and> bd = manhattan b player
              \<and> manhattan b player < manhattan pos player
              \<and> (\<forall>c\<in>set cands. manhattan b player \<le> manhattan c player)
              \<and> (\<forall>j<i. manhattan b player < manhattan (cands ! j) player)"
    then obtain i where i: "i < length cands" "cands ! i = b"
      "manhattan b player < manhattan pos player"
      "\<forall>c\<in>set cands. manhattan b player \<le> manhattan c player"
      "\<forall>j<i. manhattan b player < manhattan (cands ! j) player"
      by blast
    then have "\<exists>c\<in>set cands. manhattan c player < manhattan pos player"
      using nth_mem by blast
    moreover have "\<exists>i<length cands. best = cands ! i
              \<and> manhattan best player < manhattan pos player
              \<and> (\<forall>c\<in>set cands. manhattan best player \<le> manhattan c player)
              \<and> (\<forall>j<i. manhattan best player < manhattan (cands ! j) player)"
      using i best by blast
    ultimately show ?thesis using step by simp
  qed
qed


text \<open>
  Claim C6, as stated, fails where no candidate is nearer than the adversary's own
  cell: with a wall east of \<open>(0, 0)\<close> and the player at \<open>(0, 2)\<close>, the only candidate
  is \<open>(1, 0)\<close>, which therefore has the least distance among the candidates, and the
  adversary chooses its own cell \<open>(0, 0)\<close>, which is none of them.
\<close>

theorem secondary_not_minimal_counterexample:
  "candidates [''.#.......'', ''.........'', ''.........'', ''.........'', ''.........'',
               ''.........'', ''.........'', ''.........'', ''.........''] (0, 0) (5, 5) = [(1, 0)]
   \<and> ai_b_choice (0, 2)
        [''.#.......'', ''.........'', ''.........'', ''.........'', ''.........'',
         ''.........'', ''.........'', ''.........'', ''.........''] (5, 5) (0, 0) = (0, 0)
   \<and> ai_b_choice (0, 2)
        [''.#.......'', ''.........'', ''.........'', ''.........'', ''.........'',
         ''.........'', ''.........'', ''.........'', ''.........''] (5, 5) (0, 0)
       \<notin> set (candidates [''.#.......'', ''.........'', ''.........'', ''.........'', ''.........'',
               ''.........'', ''.........'', ''.........'', ''.........''] (0, 0) (5, 5))"
  by (simp add: candidates_def ai_b_choice_def greedy_scan_def DIRS_def in_bounds_def
      GRID_SIZE_def tile_def WALL_def manhattan_def)

theorem secondary_picks_strictly_nearer_witness:
  "(\<exists>c\<in>set (candidates
        [''.#.......'', ''.........'', ''.........'', ''.........'', ''.........'',
         ''.........'', ''.........'', ''.........'', ''.........''] (4, 4) (3, 4)).
       manhattan c (6, 6) < manhattan (4, 4) (6, 6))
   \<and> manhattan (ai_b_choice (6, 6)
        [''.#.......'', ''.........'', ''.........'', ''.........'', ''.........'',
         ''.........'', ''.........'', ''.........'', ''.........''] (3, 4) (4, 4)) (6, 6)
       < manhattan (4, 4) (6, 6)
   \<and> ai_b_choice (0, 2)
        [''.#.......'', ''.........'', ''.........'', ''.........'', ''.........'',
         ''.........'', ''.........'', ''.........'', ''.........''] (5, 5) (0, 0) = (0, 0)"
proof -
  let ?g = "[''.#.......'', ''.........'', ''.........'', ''.........'', ''.........'',
             ''.........'', ''.........'', ''.........'', ''.........'']"
  have gg: "game_grid ?g"
    by (simp add: game_grid_def rows_cover_def GRID_SIZE_def)
  have c1: "candidates ?g (4, 4) (3, 4) = [(5, 4), (4, 3), (4, 5)]"
    by (simp add: candidates_def DIRS_def in_bounds_def GRID_SIZE_def tile_def WALL_def)
  have c2: "candidates ?g (0, 0) (5, 5) = [(1, 0)]"
    by (simp add: candidates_def DIRS_def in_bounds_def GRID_SIZE_def tile_def WALL_def)
  have ex: "\<exists>c\<in>set (candidates ?g (4, 4) (3, 4)). manhattan c (6, 6) < manhattan (4, 4) (6, 6)"
    by (simp add: c1 manhattan_def)
  have w1: "manhattan (ai_b_choice (6, 6) ?g (3, 4) (4, 4)) (6, 6) < manhattan (4, 4) (6, 6)"
    using secondary_picks_strictly_nearer [where player = "(6, 6)" and grid = ?g
        and apos = "(3, 4)" and pos = "(4, 4)" and stunned_left = 0 and trs = "{}", OF gg] ex
    by (auto split: if_splits)
  have no: "\<not> (\<exists>c\<in>set (candidates ?g (0, 0) (5, 5)). manhattan c (0, 2) < manhattan (0, 0) (0, 2))"
    by (simp add: c2 manhattan_def)
  have w2: "ai_b_choice (0, 2) ?g (5, 5) (0, 0) = (0, 0)"
    using secondary_picks_strictly_nearer [where player = "(0, 2)" and grid = ?g
        and apos = "(5, 5)" and pos = "(0, 0)" and stunned_left = 0 and trs = "{}", OF gg] no
    by (auto split: if_splits)
  show ?thesis using ex w1 w2 by blast
qed

section \<open>The prediction scores\<close>
























section \<open>Correctness of the search\<close>

text \<open>Distances: the least number of steps is reached, and one more step adds at most one.\<close>

lemma distance_le: "walk grid start k p \<Longrightarrow> distance grid start p \<le> k"
  unfolding distance_def by (rule Least_le)

lemma walk_distance: "reachable grid start p \<Longrightarrow> walk grid start (distance grid start p) p"
  unfolding distance_def reachable_def by (rule LeastI_ex)

lemma reachable_start: "reachable grid start start"
  unfolding reachable_def using walk_here by blast

lemma distance_start: "distance grid start start = 0"
  using distance_le [OF walk_here] by simp

lemma reachable_step:
  assumes "reachable grid start p" "q \<in> adjacent grid p"
  shows "reachable grid start q" and "distance grid start q \<le> Suc (distance grid start p)"
proof -
  have w: "walk grid start (Suc (distance grid start p)) q"
    using walk_step [OF walk_distance [OF assms(1)] assms(2)] .
  then show "reachable grid start q"
    unfolding reachable_def by blast
  from w show "distance grid start q \<le> Suc (distance grid start p)"
    by (rule distance_le)
qed

lemma unvisited_is_far:
  assumes t: "pred_tree grid start prev" and f: "frontier grid start (u # q) prev"
    and w: "walk grid start k p" and n: "prev p = None"
  shows "distance grid start u < k"
  using w n
proof (induction rule: walk.induct)
  case walk_here
  with t show ?case by (simp add: pred_tree_def)
next
  case (walk_step k x y)
  show ?case
  proof (cases "prev x = None")
    case True
    with walk_step.IH show ?thesis by simp
  next
    case False
    have "x \<in> set (u # q)"
    proof (rule ccontr)
      assume "x \<notin> set (u # q)"
      with f False have "\<forall>v\<in>adjacent grid x. prev v \<noteq> None"
        unfolding frontier_def by blast
      with walk_step.hyps(2) walk_step.prems show False by blast
    qed
    moreover from f have "sorted (map (distance grid start) (u # q))"
      unfolding frontier_def by blast
    ultimately have "distance grid start u \<le> distance grid start x"
      by auto
    also have "\<dots> \<le> k"
      using walk_step.hyps(1) by (rule distance_le)
    finally show ?thesis by simp
  qed
qed

lemma fresh_neighbour_distance:
  assumes t: "pred_tree grid start prev" and f: "frontier grid start (u # q) prev"
    and a: "nb \<in> adjacent grid u" and n: "prev nb = None"
  shows "distance grid start nb = Suc (distance grid start u)"
proof -
  from f have "prev u \<noteq> None"
    unfolding frontier_def by simp
  with t have ru: "reachable grid start u"
    unfolding pred_tree_def by blast
  from reachable_step [OF ru a] have r: "reachable grid start nb"
    and le: "distance grid start nb \<le> Suc (distance grid start u)"
    by blast+
  from unvisited_is_far [OF t f walk_distance [OF r] n]
  have "distance grid start u < distance grid start nb" .
  with le show ?thesis by simp
qed

text \<open>Visiting a fresh neighbour of the first queued cell, and dropping that cell.\<close>

lemma pred_tree_visit:
  assumes t: "pred_tree grid start prev" and f: "frontier grid start (u # q) prev"
    and a: "nb \<in> adjacent grid u" and n: "prev nb = None"
  shows "pred_tree grid start (prev(nb \<mapsto> Some u))"
proof -
  from f have vu: "prev u \<noteq> None"
    unfolding frontier_def by simp
  with t have ru: "reachable grid start u"
    unfolding pred_tree_def by blast
  have d: "distance grid start nb = Suc (distance grid start u)"
    using fresh_neighbour_distance [OF t f a n] .
  have rn: "reachable grid start nb"
    using reachable_step(1) [OF ru a] .
  from t n have ns: "nb \<noteq> start"
    unfolding pred_tree_def by auto
  let ?prev = "prev(nb \<mapsto> Some u)"
  have 1: "?prev start = Some None"
    using t ns unfolding pred_tree_def by simp
  have 2: "\<forall>v. ?prev v = Some None \<longrightarrow> v = start"
    using t unfolding pred_tree_def by simp
  have 3: "\<forall>v p. ?prev v = Some (Some p) \<longrightarrow>
             ?prev p \<noteq> None \<and> v \<in> adjacent grid p
             \<and> distance grid start v = Suc (distance grid start p)"
  proof (intro allI impI)
    fix v p
    assume vp: "?prev v = Some (Some p)"
    show "?prev p \<noteq> None \<and> v \<in> adjacent grid p
             \<and> distance grid start v = Suc (distance grid start p)"
    proof (cases "v = nb")
      case True
      with vp have "p = u" by simp
      with True a d vu show ?thesis by simp
    next
      case False
      with vp have "prev v = Some (Some p)" by simp
      with t have "prev p \<noteq> None \<and> v \<in> adjacent grid p
             \<and> distance grid start v = Suc (distance grid start p)"
        unfolding pred_tree_def by blast
      then show ?thesis by simp
    qed
  qed
  have 4: "\<forall>v. ?prev v \<noteq> None \<longrightarrow> reachable grid start v"
    using t rn unfolding pred_tree_def by simp
  show ?thesis
    unfolding pred_tree_def using 1 2 3 4 by blast
qed

lemma frontier_visit:
  assumes t: "pred_tree grid start prev" and f: "frontier grid start (u # q) prev"
    and a: "nb \<in> adjacent grid u" and n: "prev nb = None"
  shows "frontier grid start (u # (q @ [nb])) (prev(nb \<mapsto> Some u))"
proof -
  have d: "distance grid start nb = Suc (distance grid start u)"
    using fresh_neighbour_distance [OF t f a n] .
  let ?prev = "prev(nb \<mapsto> Some u)"
  let ?d = "distance grid start"
  from f have f1: "\<forall>v\<in>set (u # q). prev v \<noteq> None"
    and f2: "sorted (map ?d (u # q))"
    and f3: "\<forall>v\<in>set (u # q). ?d v \<le> Suc (?d u)"
    and f4: "\<forall>x. prev x \<noteq> None \<and> x \<notin> set (u # q) \<longrightarrow> (\<forall>v\<in>adjacent grid x. prev v \<noteq> None)"
    unfolding frontier_def by simp_all
  have 1: "\<forall>v\<in>set (u # (q @ [nb])). ?prev v \<noteq> None"
    using f1 by simp
  have "sorted (map ?d (u # q) @ [?d nb])"
    unfolding sorted_append using f2 f3 d by auto
  then have 2: "sorted (map ?d (u # (q @ [nb])))"
    by simp
  have 3: "\<forall>v\<in>set (u # (q @ [nb])). ?d v \<le> Suc (?d (hd (u # (q @ [nb]))))"
    using f3 d by simp
  have 4: "\<forall>x. ?prev x \<noteq> None \<and> x \<notin> set (u # (q @ [nb]))
             \<longrightarrow> (\<forall>v\<in>adjacent grid x. ?prev v \<noteq> None)"
  proof (intro allI impI ballI)
    fix x v
    assume x: "?prev x \<noteq> None \<and> x \<notin> set (u # (q @ [nb]))" and v: "v \<in> adjacent grid x"
    then have "prev x \<noteq> None" "x \<notin> set (u # q)"
      by (auto split: if_splits)
    with f4 v have "prev v \<noteq> None" by blast
    then show "?prev v \<noteq> None" by simp
  qed
  show ?thesis
    unfolding frontier_def using 1 2 3 4 by blast
qed

lemma frontier_pop:
  assumes f: "frontier grid start (u # q) prev"
    and c: "\<forall>v\<in>adjacent grid u. prev v \<noteq> None"
  shows "frontier grid start q prev"
proof -
  let ?d = "distance grid start"
  from f have f1: "\<forall>v\<in>set (u # q). prev v \<noteq> None"
    and f2: "sorted (map ?d (u # q))"
    and f3: "\<forall>v\<in>set (u # q). ?d v \<le> Suc (?d u)"
    and f4: "\<forall>x. prev x \<noteq> None \<and> x \<notin> set (u # q) \<longrightarrow> (\<forall>v\<in>adjacent grid x. prev v \<noteq> None)"
    unfolding frontier_def by simp_all
  have 1: "\<forall>v\<in>set q. prev v \<noteq> None"
    using f1 by simp
  have 2: "sorted (map ?d q)"
    using f2 by simp
  have 3: "\<forall>v\<in>set q. ?d v \<le> Suc (?d (hd q))"
  proof
    fix v assume v: "v \<in> set q"
    then have "hd q \<in> set q" by (cases q) auto
    with f2 have "?d u \<le> ?d (hd q)" by auto
    moreover from f3 v have "?d v \<le> Suc (?d u)" by simp
    ultimately show "?d v \<le> Suc (?d (hd q))" by simp
  qed
  have 4: "\<forall>x. prev x \<noteq> None \<and> x \<notin> set q \<longrightarrow> (\<forall>v\<in>adjacent grid x. prev v \<noteq> None)"
  proof (intro allI impI)
    fix x assume x: "prev x \<noteq> None \<and> x \<notin> set q"
    show "\<forall>v\<in>adjacent grid x. prev v \<noteq> None"
    proof (cases "x = u")
      case True
      with c show ?thesis by simp
    next
      case False
      with x have "prev x \<noteq> None \<and> x \<notin> set (u # q)" by simp
      with f4 show ?thesis by blast
    qed
  qed
  show ?thesis
    unfolding frontier_def using 1 2 3 4 by blast
qed

lemma walk_back_finds_first_step:
  assumes t: "pred_tree grid start prev"
  shows "prev v \<noteq> None \<Longrightarrow> v \<noteq> start \<Longrightarrow>
         \<exists>x d. walk_back prev start v = Some (Inr x) \<and> x \<in> adjacent grid start
               \<and> walk grid x d v \<and> distance grid start v = Suc d"
proof (induction "distance grid start v" arbitrary: v rule: less_induct)
  case less
  from t less.prems obtain p where p: "prev v = Some (Some p)"
  proof (cases "prev v")
    case None
    with less.prems show ?thesis by simp
  next
    case (Some y)
    show ?thesis
    proof (cases y)
      case None
      with Some t have "v = start" unfolding pred_tree_def by blast
      with less.prems show ?thesis by simp
    next
      case (Some p)
      with \<open>prev v = Some y\<close> that show ?thesis by simp
    qed
  qed
  with t have vp: "prev p \<noteq> None" and adj: "v \<in> adjacent grid p"
    and d: "distance grid start v = Suc (distance grid start p)"
    unfolding pred_tree_def by blast+
  show ?case
  proof (cases "p = start")
    case True
    have "walk_back prev start v = Some (Inr v)"
      using p True by (subst walk_back.simps) simp
    moreover have "walk grid v 0 v" by (rule walk_here)
    moreover have "distance grid start v = Suc 0"
      using d True by (simp add: distance_start)
    ultimately show ?thesis using adj True by blast
  next
    case False
    have "distance grid start p < distance grid start v"
      using d by simp
    from less.hyps [OF this vp False] obtain x k where
      x: "walk_back prev start p = Some (Inr x)" "x \<in> adjacent grid start"
         "walk grid x k p" "distance grid start p = Suc k"
      by blast
    have "walk_back prev start v = walk_back prev start p"
      using p False by (subst walk_back.simps) simp
    moreover have "walk grid x (Suc k) v"
      using x(3) adj by (rule walk_step)
    ultimately show ?thesis using x d by auto
  qed
qed

text \<open>The loops of the search keep the two invariants until the target is met.\<close>

lemma scan_neighbors_invariant:
  assumes "pred_tree grid start prev" "frontier grid start (u # q) prev" "prev target = None"
    and "set nbs \<subseteq> adjacent grid u"
    and "\<forall>v\<in>adjacent grid u. v \<in> set nbs \<or> prev v \<noteq> None"
  shows "case scan_neighbors start target u nbs q prev of
           Return res \<Rightarrow> first_step_found grid start target res
         | Continue q' prev' \<Rightarrow>
             pred_tree grid start prev' \<and> frontier grid start q' prev' \<and> prev' target = None"
  using assms
proof (induction nbs arbitrary: q prev)
  case Nil
  then have "frontier grid start q prev"
    using frontier_pop [of grid start u q prev] by simp
  with Nil show ?case by simp
next
  case (Cons nb nbs)
  from Cons.prems(4) have a: "nb \<in> adjacent grid u" and sub: "set nbs \<subseteq> adjacent grid u"
    by simp_all
  show ?case
  proof (cases "prev nb = None")
    case False
    have cov: "\<forall>v\<in>adjacent grid u. v \<in> set nbs \<or> prev v \<noteq> None"
      using Cons.prems(5) False by auto
    have "scan_neighbors start target u (nb # nbs) q prev
            = scan_neighbors start target u nbs q prev"
      by (simp only: scan_neighbors.simps False if_False)
    then show ?thesis
      using Cons.IH [OF Cons.prems(1) Cons.prems(2) Cons.prems(3) sub cov] by simp
  next
    case True
    let ?prev = "prev(nb \<mapsto> Some u)"
    have t': "pred_tree grid start ?prev"
      using pred_tree_visit [OF Cons.prems(1) Cons.prems(2) a True] .
    have f': "frontier grid start (u # (q @ [nb])) ?prev"
      using frontier_visit [OF Cons.prems(1) Cons.prems(2) a True] .
    show ?thesis
    proof (cases "nb = target")
      case eq: True
      from Cons.prems(1) have "prev start = Some None"
        unfolding pred_tree_def by blast
      with True have ns: "nb \<noteq> start" by auto
      have "?prev nb \<noteq> None" by simp
      from walk_back_finds_first_step [OF t' this ns] obtain x d where
        x: "walk_back ?prev start nb = Some (Inr x)" "x \<in> adjacent grid start"
           "walk grid x d nb" "distance grid start nb = Suc d"
        by blast
      have "scan_neighbors start target u (nb # nbs) q prev
              = Return (case walk_back ?prev start nb of
                          None \<Rightarrow> None
                        | Some (Inl e) \<Rightarrow> Some (Inl e)
                        | Some (Inr cur) \<Rightarrow> Some (Inr (Some cur)))"
        using True eq by (simp add: Let_def)
      also have "\<dots> = Return (Some (Inr (Some x)))"
        by (simp only: x(1) option.case sum.case)
      finally show ?thesis
        using x eq by (auto simp: first_step_found_def)
    next
      case ne: False
      have tn: "?prev target = None"
        using Cons.prems(3) ne by simp
      have cov: "\<forall>v\<in>adjacent grid u. v \<in> set nbs \<or> ?prev v \<noteq> None"
        using Cons.prems(5) by auto
      have "scan_neighbors start target u (nb # nbs) q prev
              = scan_neighbors start target u nbs (q @ [nb]) ?prev"
        using True ne by (simp add: Let_def)
      then show ?thesis
        using Cons.IH [OF t' f' tn sub cov] by (simp only:)
    qed
  qed
qed

lemma closed_visits_all:
  assumes t: "pred_tree grid start prev" and f: "frontier grid start [] prev"
    and w: "walk grid start k p"
  shows "prev p \<noteq> None"
  using w
proof (induction rule: walk.induct)
  case walk_here
  from t show ?case unfolding pred_tree_def by simp
next
  case (walk_step k x y)
  from f have "\<forall>u. prev u \<noteq> None \<longrightarrow> (\<forall>v\<in>adjacent grid u. prev v \<noteq> None)"
    unfolding frontier_def by simp
  with walk_step.IH walk_step.hyps(2) show ?case by blast
qed

lemma bfs_loop_correct:
  "pred_tree grid start prev \<Longrightarrow> frontier grid start q prev \<Longrightarrow> prev target = None \<Longrightarrow>
   (bfs_loop start target grid q prev = Some (Inr None) \<and> \<not> reachable grid start target)
   \<or> first_step_found grid start target (bfs_loop start target grid q prev)"
proof (induction start target grid q prev rule: bfs_loop.induct)
  case (1 start target grid prev)
  have "\<not> reachable grid start target"
  proof
    assume "reachable grid start target"
    then obtain k where "walk grid start k target"
      unfolding reachable_def by blast
    from closed_visits_all [OF "1.prems"(1) "1.prems"(2) this] "1.prems"(3)
    show False by simp
  qed
  then show ?case by simp
next
  case (2 start target grid r c q prev)
  have sub: "set (neighbors r c grid) \<subseteq> adjacent grid (r, c)"
    by (simp add: adjacent_def)
  have cov: "\<forall>v\<in>adjacent grid (r, c). v \<in> set (neighbors r c grid) \<or> prev v \<noteq> None"
    by (simp add: adjacent_def)
  note inv = scan_neighbors_invariant [OF "2.prems"(1) "2.prems"(2) "2.prems"(3) sub cov]
  show ?case
  proof (cases "scan_neighbors start target (r, c) (neighbors r c grid) q prev")
    case (Return res)
    with inv have "first_step_found grid start target res" by simp
    moreover have "bfs_loop start target grid ((r, c) # q) prev = res"
      using Return by simp
    ultimately show ?thesis by simp
  next
    case (Continue q' prev')
    with inv have "pred_tree grid start prev'" "frontier grid start q' prev'"
      "prev' target = None"
      by simp_all
    from "2.IH" [OF Continue this]
    have "(bfs_loop start target grid q' prev' = Some (Inr None) \<and> \<not> reachable grid start target)
          \<or> first_step_found grid start target (bfs_loop start target grid q' prev')" .
    moreover have "bfs_loop start target grid ((r, c) # q) prev
                     = bfs_loop start target grid q' prev'"
      using Continue by simp
    ultimately show ?thesis by simp
  qed
qed

lemma bfs_first_step_far:
  assumes "start \<noteq> target"
  shows "(bfs_first_step start target grid = Some (Inr None) \<and> \<not> reachable grid start target)
   \<or> first_step_found grid start target (bfs_first_step start target grid)"
proof -
  have t: "pred_tree grid start [start \<mapsto> None]"
    unfolding pred_tree_def using reachable_start by (auto split: if_splits)
  have f: "frontier grid start [start] [start \<mapsto> None]"
    unfolding frontier_def by (auto split: if_splits)
  have n: "[start \<mapsto> None] target = None"
    using assms by simp
  have "bfs_first_step start target grid = bfs_loop start target grid [start] [start \<mapsto> None]"
    using assms by (simp only: bfs_first_step_def if_False)
  with bfs_loop_correct [OF t f n] show ?thesis
    by (simp only:)
qed

lemma adjacent_open:
  "q \<in> adjacent grid p \<Longrightarrow> tile grid q \<noteq> WALL \<and> manhattan p q = 1
     \<and> 0 \<le> fst q \<and> fst q < int (length grid) \<and> 0 \<le> snd q \<and> snd q < int (length grid)"
  by (auto simp: adjacent_def neighbors_def DIRS_def Let_def manhattan_def split: if_splits)

lemma walk_zero: "walk grid start 0 p \<Longrightarrow> p = start"
  by (erule walk.cases) simp_all

lemma wall_unreachable:
  assumes "start \<noteq> target" "tile grid target = WALL"
  shows "\<not> reachable grid start target"
proof
  assume "reachable grid start target"
  then obtain k where "walk grid start k target"
    unfolding reachable_def by blast
  then show False
  proof (cases rule: walk.cases)
    case walk_here
    with assms(1) show False by simp
  next
    case (walk_step k p)
    with adjacent_open [of target grid p] assms(2) show False by simp
  qed
qed

text \<open>
  The search always returns: \<^verbatim>\<open>None\<close>, the start itself, or a cell next to the start.
\<close>

lemma bfs_first_step_returns:
  "\<exists>res. bfs_first_step start target grid = Some (Inr res)
         \<and> (\<forall>x. res = Some x \<longrightarrow> x = start \<or> x \<in> adjacent grid start)"
proof (cases "start = target")
  case True
  then show ?thesis by (simp add: bfs_first_step_def)
next
  case False
  from bfs_first_step_far [OF False, of grid] show ?thesis
    unfolding first_step_found_def by auto
qed

text \<open>
  Claim C1. On a grid whose rows cover its height, \<^verbatim>\<open>bfs_first_step\<close> returns the
  start itself when start and target are equal. When the target differs from the start
  and some walk leads to it, the result is a cell that \<^verbatim>\<open>neighbors\<close> yields for the
  start, one unit step away, from which \<open>d\<close> steps lead to the target, where \<open>d + 1\<close>
  is the least number of steps from the start to the target. When no walk leads to the
  target the result is \<^verbatim>\<open>None\<close>; that is so, in particular, for a target other than the
  start that is a wall.
\<close>

theorem bfs_first_step_shortest:
  assumes "rows_cover grid"
  shows "(start = target \<longrightarrow> bfs_first_step start target grid = Some (Inr (Some start)))
   \<and> (start \<noteq> target \<and> reachable grid start target \<longrightarrow>
        (\<exists>step d. bfs_first_step start target grid = Some (Inr (Some step))
           \<and> step \<in> set (neighbors (fst start) (snd start) grid)
           \<and> manhattan start step = 1
           \<and> walk grid step d target \<and> walk grid start (Suc d) target
           \<and> (\<forall>k. walk grid start k target \<longrightarrow> Suc d \<le> k)))
   \<and> (\<not> reachable grid start target \<longrightarrow> bfs_first_step start target grid = Some (Inr None))
   \<and> (start \<noteq> target \<and> tile grid target = WALL \<longrightarrow>
        bfs_first_step start target grid = Some (Inr None))"
proof -
  have same: "start = target \<longrightarrow> bfs_first_step start target grid = Some (Inr (Some start))"
    by (simp add: bfs_first_step_def)
  have none: "\<not> reachable grid start target \<longrightarrow> bfs_first_step start target grid = Some (Inr None)"
  proof
    assume n: "\<not> reachable grid start target"
    then have ne: "start \<noteq> target"
      using reachable_start [of grid start] by blast
    have "\<not> first_step_found grid start target (bfs_first_step start target grid)"
    proof
      assume "first_step_found grid start target (bfs_first_step start target grid)"
      then obtain x d where "x \<in> adjacent grid start" "walk grid x d target"
        unfolding first_step_found_def by blast
      moreover have "walk grid start (Suc 0) x"
        using walk_step [OF walk_here \<open>x \<in> adjacent grid start\<close>] .
      ultimately have "reachable grid start x" "reachable grid x target"
        unfolding reachable_def by blast+
      from \<open>walk grid x d target\<close> \<open>walk grid start (Suc 0) x\<close>
      have "\<exists>k. walk grid start k target"
      proof (induction rule: walk.induct)
        case walk_here
        then show ?case by blast
      next
        case (walk_step k p q)
        then obtain j where "walk grid start j p" by blast
        from walk.walk_step [OF this walk_step.hyps(2)] show ?case by blast
      qed
      with n show False unfolding reachable_def by simp
    qed
    with bfs_first_step_far [OF ne, of grid]
    show "bfs_first_step start target grid = Some (Inr None)" by blast
  qed
  have found: "start \<noteq> target \<and> reachable grid start target \<longrightarrow>
        (\<exists>step d. bfs_first_step start target grid = Some (Inr (Some step))
           \<and> step \<in> set (neighbors (fst start) (snd start) grid)
           \<and> manhattan start step = 1
           \<and> walk grid step d target \<and> walk grid start (Suc d) target
           \<and> (\<forall>k. walk grid start k target \<longrightarrow> Suc d \<le> k))"
  proof
    assume a: "start \<noteq> target \<and> reachable grid start target"
    with bfs_first_step_far [of start target grid]
    have "first_step_found grid start target (bfs_first_step start target grid)"
      by blast
    then obtain x d where x: "bfs_first_step start target grid = Some (Inr (Some x))"
      "x \<in> adjacent grid start" "walk grid x d target" "distance grid start target = Suc d"
      unfolding first_step_found_def by blast
    have "walk grid start (Suc d) target"
      using walk_distance [of grid start target] a x(4) by simp
    moreover have "\<forall>k. walk grid start k target \<longrightarrow> Suc d \<le> k"
      using distance_le [of grid start _ target] x(4) by auto
    moreover have "manhattan start x = 1"
      using adjacent_open [OF x(2)] by simp
    moreover have "x \<in> set (neighbors (fst start) (snd start) grid)"
      using x(2) by (simp add: adjacent_def)
    ultimately show "\<exists>step d. bfs_first_step start target grid = Some (Inr (Some step))
           \<and> step \<in> set (neighbors (fst start) (snd start) grid)
           \<and> manhattan start step = 1
           \<and> walk grid step d target \<and> walk grid start (Suc d) target
           \<and> (\<forall>k. walk grid start k target \<longrightarrow> Suc d \<le> k)"
      using x(1) x(3) by blast
  qed
  have wall: "start \<noteq> target \<and> tile grid target = WALL \<longrightarrow>
        bfs_first_step start target grid = Some (Inr None)"
    using none wall_unreachable [of start target grid] by blast
  show ?thesis
    using same found none wall by blast
qed


theorem bfs_first_step_shortest_witness:
  "rows_cover [''..#'', ''.#.'', ''...'']
   \<and> bfs_first_step (0, 0) (0, 0) [''..#'', ''.#.'', ''...''] = Some (Inr (Some (0, 0)))
   \<and> reachable [''..#'', ''.#.'', ''...''] (0, 0) (2, 0)
   \<and> (\<exists>step d. bfs_first_step (0, 0) (2, 0) [''..#'', ''.#.'', ''...''] = Some (Inr (Some step))
          \<and> manhattan (0, 0) step = 1
          \<and> walk [''..#'', ''.#.'', ''...''] step d (2, 0)
          \<and> walk [''..#'', ''.#.'', ''...''] (0, 0) (Suc d) (2, 0))
   \<and> \<not> reachable [''..#'', ''.#.'', ''...''] (0, 0) (0, 2)
   \<and> tile [''..#'', ''.#.'', ''...''] (0, 2) = WALL
   \<and> bfs_first_step (0, 0) (0, 2) [''..#'', ''.#.'', ''...''] = Some (Inr None)"
proof -
  let ?g = "[''..#'', ''.#.'', ''...'']"
  have rc: "rows_cover ?g"
    by (simp add: rows_cover_def)
  have a1: "(1, 0) \<in> adjacent ?g (0, 0)"
    by (simp add: adjacent_def neighbors_def DIRS_def tile_def WALL_def)
  have a2: "(2, 0) \<in> adjacent ?g (1, 0)"
    by (simp add: adjacent_def neighbors_def DIRS_def tile_def WALL_def)
  have "walk ?g (0, 0) (Suc (Suc 0)) (2, 0)"
    using walk_step [OF walk_step [OF walk_here a1] a2] .
  then have r: "reachable ?g (0, 0) (2, 0)"
    unfolding reachable_def by blast
  have w: "tile ?g (0, 2) = WALL"
    by (simp add: tile_def WALL_def)
  have n: "\<not> reachable ?g (0, 0) (0, 2)"
    by (rule wall_unreachable) (simp_all add: w)
  have 1: "bfs_first_step (0, 0) (0, 0) ?g = Some (Inr (Some (0, 0)))"
    using bfs_first_step_shortest [OF rc, of "(0, 0)" "(0, 0)"] by blast
  have 2: "\<exists>step d. bfs_first_step (0, 0) (2, 0) ?g = Some (Inr (Some step))
          \<and> manhattan (0, 0) step = 1
          \<and> walk ?g step d (2, 0) \<and> walk ?g (0, 0) (Suc d) (2, 0)"
  proof -
    have "(0, 0) \<noteq> ((2, 0) :: cell) \<and> reachable ?g (0, 0) (2, 0)"
      using r by simp
    with bfs_first_step_shortest [OF rc, of "(0, 0)" "(2, 0)"] show ?thesis
      by blast
  qed
  have 3: "bfs_first_step (0, 0) (0, 2) ?g = Some (Inr None)"
    using bfs_first_step_shortest [OF rc, of "(0, 0)" "(0, 2)"] n by blast
  show ?thesis
    using rc 1 r 2 n w 3 by blast
qed

section \<open>The adversaries' rounds\<close>

lemma candidates_open:
  "c \<in> set (candidates grid pos other) \<Longrightarrow> in_bounds c \<and> tile grid c \<noteq> WALL \<and> c \<noteq> other"
  by (simp add: candidates_def)

lemma greedy_scan_choice:
  "fst (greedy_scan grid pos other dest (pos, d0)) = pos
   \<or> fst (greedy_scan grid pos other dest (pos, d0)) \<in> set (candidates grid pos other)"
proof -
  obtain b bd where f:
    "fold (\<lambda>cand (best, best_d).
             if manhattan cand dest < best_d then (cand, manhattan cand dest) else (best, best_d))
          (candidates grid pos other) (pos, d0) = (b, bd)"
    by fastforce
  then have b: "fst (greedy_scan grid pos other dest (pos, d0)) = b"
    by (simp add: greedy_scan_candidates)
  from fold_nearest [OF f] have "b = pos \<or> b \<in> set (candidates grid pos other)"
    using nth_mem by blast
  with b show ?thesis by simp
qed

text \<open>The cells an adversary may hand to the collision and trap tests.\<close>

lemma ai_a_step_lands:
  "\<exists>step. ai_a_step ppos grid goal a2pos st = Some (Inr (land step a2pos st))
     \<and> (step = fst st \<or> step \<in> adjacent grid (fst st)
          \<or> step \<in> set (candidates grid (fst st) a2pos))"
proof -
  obtain path_step where p: "bfs_first_step ppos goal grid = Some (Inr path_step)"
    using bfs_first_step_returns [of ppos goal grid] by blast
  define target where "target = (case path_step of Some p \<Rightarrow> p | None \<Rightarrow> ppos)"
  obtain found where f: "bfs_first_step (fst st) target grid = Some (Inr found)"
    and fx: "\<forall>x. found = Some x \<longrightarrow> x = fst st \<or> x \<in> adjacent grid (fst st)"
    using bfs_first_step_returns [of "fst st" target grid] by blast
  define step where "step = (case found of Some s \<Rightarrow> s
      | None \<Rightarrow> fst (greedy_scan grid (fst st) a2pos target (fst st, 10 ^ 9)))"
  have "ai_a_step ppos grid goal a2pos st = Some (Inr (land step a2pos st))"
    by (simp add: ai_a_step_def p Let_def target_def [symmetric] f step_def)
  moreover have "step = fst st \<or> step \<in> adjacent grid (fst st)
          \<or> step \<in> set (candidates grid (fst st) a2pos)"
  proof (cases found)
    case None
    then show ?thesis
      using greedy_scan_choice [of grid "fst st" a2pos target "10 ^ 9"] by (auto simp: step_def)
  next
    case (Some x)
    with fx show ?thesis by (auto simp: step_def)
  qed
  ultimately show ?thesis by blast
qed

lemma ai_b_choice_cases:
  "ai_b_choice ppos grid apos pos = pos
   \<or> ai_b_choice ppos grid apos pos \<in> set (candidates grid pos apos)"
  unfolding ai_b_choice_def by (rule greedy_scan_choice)

text \<open>
  A property that every round keeps while the loop goes on, and a property of the
  state at \<^verbatim>\<open>break\<close> and at the end of the rounds.
\<close>

lemma ai_a_loop_invariant:
  assumes "I st"
    and step: "\<And>st step. I st \<Longrightarrow>
        step = fst st \<or> step \<in> adjacent grid (fst st) \<or> step \<in> set (candidates grid (fst st) a2pos)
        \<Longrightarrow> (case land step a2pos st of Break st' \<Rightarrow> P st' | Next st' \<Rightarrow> I st')"
    and fin: "\<And>st. I st \<Longrightarrow> P st"
  shows "\<exists>res. ai_a_loop n ppos grid goal a2pos st = Some (Inr res) \<and> P res"
  using assms(1)
proof (induction n arbitrary: st)
  case 0
  then show ?case using fin by simp
next
  case (Suc n)
  from ai_a_step_lands [of ppos grid goal a2pos st] obtain s where
    s: "ai_a_step ppos grid goal a2pos st = Some (Inr (land s a2pos st))"
       "s = fst st \<or> s \<in> adjacent grid (fst st) \<or> s \<in> set (candidates grid (fst st) a2pos)"
    by blast
  show ?case
  proof (cases "land s a2pos st")
    case (Break st')
    with step [OF Suc.prems s(2)] have "P st'" by simp
    with s(1) Break show ?thesis by simp
  next
    case (Next st')
    with step [OF Suc.prems s(2)] have "I st'" by simp
    from Suc.IH [OF this] s(1) Next show ?thesis by simp
  qed
qed

lemma ai_b_loop_invariant:
  assumes "I st"
    and step: "\<And>st step. I st \<Longrightarrow>
        step = fst st \<or> step \<in> set (candidates grid (fst st) apos)
        \<Longrightarrow> (case land step apos st of Break st' \<Rightarrow> P st' | Next st' \<Rightarrow> I st')"
    and fin: "\<And>st. I st \<Longrightarrow> P st"
  shows "P (ai_b_loop n ppos grid apos st)"
  using assms(1)
proof (induction n arbitrary: st)
  case 0
  then show ?case using fin by simp
next
  case (Suc n)
  let ?s = "ai_b_choice ppos grid apos (fst st)"
  have c: "?s = fst st \<or> ?s \<in> set (candidates grid (fst st) apos)"
    by (rule ai_b_choice_cases)
  show ?case
  proof (cases "land ?s apos st")
    case (Break st')
    with step [OF Suc.prems c] have "P st'" by simp
    with Break show ?thesis by (simp add: ai_b_step_def)
  next
    case (Next st')
    with step [OF Suc.prems c] have "I st'" by simp
    from Suc.IH [OF this] Next show ?thesis by (simp add: ai_b_step_def)
  qed
qed

section \<open>Traps\<close>







section \<open>Whole turns\<close>

text \<open>A property of cells that every admissible step keeps holds of the cell a turn ends on.\<close>

lemma ai_a_turn_cell_invariant:
  assumes "Q apos"
    and step: "\<And>p s. Q p \<Longrightarrow> s \<in> adjacent grid p \<or> s \<in> set (candidates grid p a2pos) \<Longrightarrow>
                 s \<noteq> a2pos \<Longrightarrow> Q s"
  shows "\<exists>res. ai_a_turn apos ppos grid trs mvs model gcounts stunned goal a2pos = Some (Inr res)
           \<and> Q (fst res)"
proof (cases "stunned > 0")
  case True
  with assms(1) show ?thesis by (simp add: ai_a_turn_def)
next
  case False
  define n :: nat where "n = (if manhattan apos ppos > CLOSE_RANGE + 2 then 2 else 1)"
  have a: "ai_a_turn apos ppos grid trs mvs model gcounts stunned goal a2pos
             = ai_a_loop n ppos grid goal a2pos (apos, 0, trs)"
    using False by (simp add: ai_a_turn_def Let_def n_def)
  have "\<exists>res. ai_a_loop n ppos grid goal a2pos (apos, 0, trs) = Some (Inr res) \<and> Q (fst res)"
  proof (rule ai_a_loop_invariant [where I = "\<lambda>st. Q (fst st)"])
    show "Q (fst (apos, 0 :: int, trs))" using assms(1) by simp
  next
    fix st :: agent_state and s :: cell
    assume q: "Q (fst st)"
      and s: "s = fst st \<or> s \<in> adjacent grid (fst st) \<or> s \<in> set (candidates grid (fst st) a2pos)"
    obtain p sl t where st: "st = (p, sl, t)" by (cases st)
    have "s \<noteq> a2pos \<Longrightarrow> Q s"
      using q s step [of p s] by (auto simp: st)
    with q show "case land s a2pos st of Break st' \<Rightarrow> Q (fst st') | Next st' \<Rightarrow> Q (fst st')"
      by (simp add: st land_def)
  qed simp
  with a show ?thesis by simp
qed

lemma ai_b_turn_cell_invariant:
  assumes "Q a2pos"
    and step: "\<And>p s. Q p \<Longrightarrow> s \<in> set (candidates grid p apos) \<Longrightarrow> Q s"
  shows "Q (fst (ai_b_turn a2pos ppos grid trs stunned apos))"
proof (cases "stunned > 0")
  case True
  with assms(1) show ?thesis by (simp add: ai_b_turn_def)
next
  case False
  define n :: nat where "n = (if manhattan a2pos ppos > CLOSE_RANGE + 2 then 2 else 1)"
  have b: "ai_b_turn a2pos ppos grid trs stunned apos = ai_b_loop n ppos grid apos (a2pos, 0, trs)"
    using False by (simp add: ai_b_turn_def Let_def n_def)
  have "Q (fst (ai_b_loop n ppos grid apos (a2pos, 0, trs)))"
  proof (rule ai_b_loop_invariant [where I = "\<lambda>st. Q (fst st)" and P = "\<lambda>st. Q (fst st)"])
    show "Q (fst (a2pos, 0 :: int, trs))" using assms(1) by simp
  next
    fix st :: agent_state and s :: cell
    assume q: "Q (fst st)"
      and s: "s = fst st \<or> s \<in> set (candidates grid (fst st) apos)"
    obtain p sl t where st: "st = (p, sl, t)" by (cases st)
    have "Q s"
      using q s step [of p s] by (auto simp: st)
    with q show "case land s apos st of Break st' \<Rightarrow> Q (fst st') | Next st' \<Rightarrow> Q (fst st')"
      by (simp add: st land_def)
  qed simp
  with b show ?thesis by simp
qed

text \<open>The shape of the state after both adversaries have moved.\<close>

lemma adversaries_result:
  "\<exists>a sa t1 b sb t2 st'.
      ai_a_turn (ai_pos st) (player_pos st) grid (traps st) (this_game_moves st) model gcounts
          (ai_stunned st) goal (ai2_pos st) = Some (Inr (a, sa, t1))
      \<and> ai_b_turn (ai2_pos st) (player_pos st) grid t1 (ai2_stunned st) a = (b, sb, t2)
      \<and> adversaries grid goal model gcounts st = Some (Inr st')
      \<and> ai_pos st' = a \<and> ai2_pos st' = b \<and> traps st' = t2
      \<and> ai_stunned st' = sa \<and> ai2_stunned st' = sb
      \<and> player_pos st' = player_pos st \<and> this_game_moves st' = this_game_moves st
      \<and> traps_left st' = traps_left st \<and> turn st' = turn st"
proof -
  obtain res where "ai_a_turn (ai_pos st) (player_pos st) grid (traps st) (this_game_moves st)
      model gcounts (ai_stunned st) goal (ai2_pos st) = Some (Inr res)"
    using ai_a_turn_cell_invariant [where Q = "\<lambda>p. True"] by blast
  then obtain a sa t1 where a: "ai_a_turn (ai_pos st) (player_pos st) grid (traps st)
      (this_game_moves st) model gcounts (ai_stunned st) goal (ai2_pos st) = Some (Inr (a, sa, t1))"
    by (cases res) auto
  obtain b sb t2 where b: "ai_b_turn (ai2_pos st) (player_pos st) grid t1 (ai2_stunned st) a
      = (b, sb, t2)"
    by (cases "ai_b_turn (ai2_pos st) (player_pos st) grid t1 (ai2_stunned st) a") auto
  have "\<exists>st'. adversaries grid goal model gcounts st = Some (Inr st')
      \<and> ai_pos st' = a \<and> ai2_pos st' = b \<and> traps st' = t2
      \<and> ai_stunned st' = sa \<and> ai2_stunned st' = sb
      \<and> player_pos st' = player_pos st \<and> this_game_moves st' = this_game_moves st
      \<and> traps_left st' = traps_left st \<and> turn st' = turn st"
  proof (cases "sa > 0 \<and> ai_stunned st = 0")
    case True
    then show ?thesis
      unfolding adversaries_def a by (simp add: Let_def b)
  next
    case False
    then show ?thesis
      unfolding adversaries_def a by (simp add: Let_def b)
  qed
  with a b show ?thesis by blast
qed

section \<open>The adversaries never share a cell\<close>

text \<open>
  Claim C5. With the two adversaries on different cells: a chosen step onto the
  secondary's cell makes the primary break off without moving; the secondary's choice
  is never the primary's cell; after the primary's turn it is not on the secondary's
  cell, and after the secondary's turn, played against the primary's new cell, the
  secondary is not on the primary's cell; so the state after both turns has the two
  adversaries on different cells.
\<close>

theorem adversaries_stay_apart:
  assumes "game_grid grid" and "apos \<noteq> a2pos"
  shows "land a2pos a2pos (pos, sl, trs) = Break (pos, sl, trs)
     \<and> (pos \<noteq> apos \<longrightarrow> ai_b_choice ppos grid apos pos \<noteq> apos)
     \<and> (\<exists>a sa trs1.
           ai_a_turn apos ppos grid trs mvs model gcounts stunned goal a2pos = Some (Inr (a, sa, trs1))
           \<and> a \<noteq> a2pos \<and> fst (ai_b_turn a2pos ppos grid trs1 stunned_b a) \<noteq> a)
     \<and> (ai_pos st = apos \<and> ai2_pos st = a2pos \<longrightarrow>
          (\<exists>st'. adversaries grid goal model gcounts st = Some (Inr st')
                 \<and> ai_pos st' \<noteq> ai2_pos st'))"
proof -
  have 1: "land a2pos a2pos (pos, sl, trs) = Break (pos, sl, trs)"
    by (simp add: land_def)
  have 2: "pos \<noteq> apos \<longrightarrow> ai_b_choice ppos grid apos pos \<noteq> apos"
  proof
    assume ne: "pos \<noteq> apos"
    from ai_b_choice_cases [of ppos grid apos pos]
    show "ai_b_choice ppos grid apos pos \<noteq> apos"
    proof
      assume "ai_b_choice ppos grid apos pos = pos"
      with ne show ?thesis by simp
    next
      assume "ai_b_choice ppos grid apos pos \<in> set (candidates grid pos apos)"
      then show ?thesis by (simp add: candidates_open)
    qed
  qed
  have a_turn: "\<And>ppos trs mvs stunned.
      \<exists>res. ai_a_turn apos ppos grid trs mvs model gcounts stunned goal a2pos = Some (Inr res)
            \<and> fst res \<noteq> a2pos"
    by (rule ai_a_turn_cell_invariant [where Q = "\<lambda>p. p \<noteq> a2pos"]) (simp_all add: assms(2))
  have b_turn: "\<And>a ppos trs stunned. a \<noteq> a2pos \<Longrightarrow>
      fst (ai_b_turn a2pos ppos grid trs stunned a) \<noteq> a"
  proof -
    fix a ppos trs stunned
    assume "a \<noteq> a2pos"
    then have "a2pos \<noteq> a" by simp
    then show "fst (ai_b_turn a2pos ppos grid trs stunned a) \<noteq> a"
      by (rule ai_b_turn_cell_invariant [where Q = "\<lambda>p. p \<noteq> a"])
         (simp add: candidates_open)
  qed
  have 3: "\<exists>a sa trs1.
           ai_a_turn apos ppos grid trs mvs model gcounts stunned goal a2pos = Some (Inr (a, sa, trs1))
           \<and> a \<noteq> a2pos \<and> fst (ai_b_turn a2pos ppos grid trs1 stunned_b a) \<noteq> a"
  proof -
    from a_turn [of ppos trs mvs stunned] obtain res where
      r: "ai_a_turn apos ppos grid trs mvs model gcounts stunned goal a2pos = Some (Inr res)"
         "fst res \<noteq> a2pos"
      by blast
    obtain a sa trs1 where res: "res = (a, sa, trs1)" by (cases res)
    with r b_turn [of a ppos trs1 stunned_b] show ?thesis by auto
  qed
  have 4: "ai_pos st = apos \<and> ai2_pos st = a2pos \<longrightarrow>
          (\<exists>st'. adversaries grid goal model gcounts st = Some (Inr st')
                 \<and> ai_pos st' \<noteq> ai2_pos st')"
  proof
    assume st: "ai_pos st = apos \<and> ai2_pos st = a2pos"
    from adversaries_result [of st grid model gcounts goal] obtain a sa t1 b sb t2 st' where
      r: "ai_a_turn (ai_pos st) (player_pos st) grid (traps st) (this_game_moves st) model gcounts
            (ai_stunned st) goal (ai2_pos st) = Some (Inr (a, sa, t1))"
         "ai_b_turn (ai2_pos st) (player_pos st) grid t1 (ai2_stunned st) a = (b, sb, t2)"
         "adversaries grid goal model gcounts st = Some (Inr st')"
         "ai_pos st' = a" "ai2_pos st' = b"
      by blast
    from a_turn [of "player_pos st" "traps st" "this_game_moves st" "ai_stunned st"] r(1) st
    have "a \<noteq> a2pos" by auto
    from b_turn [OF this, of "player_pos st" t1 "ai2_stunned st"] r(2) st
    have "b \<noteq> a" by simp
    with r show "\<exists>st'. adversaries grid goal model gcounts st = Some (Inr st')
                 \<and> ai_pos st' \<noteq> ai2_pos st'"
      by auto
  qed
  show ?thesis
    using 1 2 3 4 by blast
qed


theorem adversaries_stay_apart_witness:
  "game_grid [''.........'', ''.........'', ''.........'', ''.........'', ''.........'',
              ''.........'', ''.........'', ''.........'', ''.........'']
   \<and> (0, 0) \<noteq> ((0, 1) :: cell)
   \<and> ai_a_turn (0, 0) (0, 2)
        [''.........'', ''.........'', ''.........'', ''.........'', ''.........'',
         ''.........'', ''.........'', ''.........'', ''.........''] {} [] Map.empty [] 0 (0, 8) (0, 1)
       = Some (Inr ((0, 0), 0, {}))
   \<and> fst (ai_b_turn (0, 1) (0, 2)
        [''.........'', ''.........'', ''.........'', ''.........'', ''.........'',
         ''.........'', ''.........'', ''.........'', ''.........''] {} 0 (0, 0)) \<noteq> (0, 0)
   \<and> (\<exists>st'. adversaries
          [''.........'', ''.........'', ''.........'', ''.........'', ''.........'',
           ''.........'', ''.........'', ''.........'', ''.........''] (0, 8) Map.empty []
          \<lparr>player_pos = (0, 2), ai_pos = (0, 0), ai2_pos = (0, 1), traps = {}, traps_left = 3,
           this_game_moves = [], ai_stunned = 0, ai2_stunned = 0, msg = [], turn = 1,
           successful_traps = 0\<rparr> = Some (Inr st')
        \<and> ai_pos st' \<noteq> ai2_pos st')"
proof -
  let ?g = "[''.........'', ''.........'', ''.........'', ''.........'', ''.........'',
             ''.........'', ''.........'', ''.........'', ''.........'']"
  let ?st = "\<lparr>player_pos = (0, 2), ai_pos = (0, 0), ai2_pos = (0, 1), traps = {}, traps_left = 3,
           this_game_moves = [], ai_stunned = 0, ai2_stunned = 0, msg = [], turn = 1,
           successful_traps = 0\<rparr>"
  have gg: "game_grid ?g"
    by (simp add: game_grid_def rows_cover_def GRID_SIZE_def)
  have ne: "(0, 0) \<noteq> ((0, 1) :: cell)" by simp
  note t = adversaries_stay_apart [where grid = ?g and apos = "(0, 0)" and a2pos = "(0, 1)"
      and ppos = "(0, 2)" and trs = "{}" and mvs = "[]" and model = Map.empty and gcounts = "[]"
      and stunned = 0 and stunned_b = 0 and goal = "(0, 8)" and st = ?st and pos = "(0, 1)"
      and sl = 0, OF gg ne]
  have e: "ai_a_turn (0, 0) (0, 2) ?g {} [] Map.empty [] 0 (0, 8) (0, 1)
             = Some (Inr ((0, 0), 0, {}))"
    by code_simp
  from t e have b: "fst (ai_b_turn (0, 1) (0, 2) ?g {} 0 (0, 0)) \<noteq> (0, 0)"
    by auto
  from t have "\<exists>st'. adversaries ?g (0, 8) Map.empty [] ?st = Some (Inr st')
        \<and> ai_pos st' \<noteq> ai2_pos st'"
    by simp
  with gg ne e b show ?thesis by blast
qed

section \<open>The game loop: results and positions\<close>

lemma adjacent_in_game:
  assumes "game_grid grid" "q \<in> adjacent grid p"
  shows "open_cell grid q"
  using adjacent_open [OF assms(2)] assms(1)
  by (simp add: open_cell_def in_bounds_def game_grid_def)

lemma candidates_in_game: "q \<in> set (candidates grid p other) \<Longrightarrow> open_cell grid q"
  by (simp add: open_cell_def candidates_open)

lemma try_move_open:
  assumes "open_cell grid pos" "try_move pos move_label grid = Inr p"
  shows "open_cell grid p"
  using assms
  by (auto simp: try_move_def open_cell_def in_bounds_def Let_def
           split: option.splits prod.splits if_splits)

lemma dir_keys_labels: "map_of DIR_KEYS ch = Some l \<Longrightarrow> \<exists>d. map_of DIRS l = Some d"
  by (auto simp: DIR_KEYS_def DIRS_def split: if_splits)

lemma try_move_returns: "map_of DIRS l = Some d \<Longrightarrow> \<exists>p. try_move pos l grid = Inr p"
  by (cases d) (simp add: try_move_def Let_def)

text \<open>The player's part of a turn moves the player only, and only by \<^verbatim>\<open>try_move\<close>.\<close>

lemma player_action_result:
  "\<exists>st1. player_action ch grid st = Inr st1
      \<and> ai_pos st1 = ai_pos st \<and> ai2_pos st1 = ai2_pos st
      \<and> (player_pos st1 = player_pos st
            \<or> (\<exists>l. try_move (player_pos st) l grid = Inr (player_pos st1)))"
proof (cases "ch = ord_t")
  case True
  then show ?thesis by (simp add: player_action_def)
next
  case False
  show ?thesis
  proof (cases "map_of DIR_KEYS ch")
    case None
    with False show ?thesis by (simp add: player_action_def)
  next
    case (Some l)
    from dir_keys_labels [OF Some] obtain d where "map_of DIRS l = Some d" by blast
    from try_move_returns [OF this] obtain p where p: "try_move (player_pos st) l grid = Inr p"
      by blast
    show ?thesis
    proof (cases "p = player_pos st")
      case True
      with False Some p show ?thesis by (simp add: player_action_def)
    next
      case ne: False
      have "player_action ch grid st
              = Inr (st\<lparr>player_pos := p, this_game_moves := this_game_moves st @ [l]\<rparr>)"
        using False Some p ne by (simp add: player_action_def)
      with p show ?thesis by auto
    qed
  qed
qed

lemma adversaries_open:
  assumes gg: "game_grid grid" and po: "positions_open grid st"
  shows "\<exists>st'. adversaries grid goal model gcounts st = Some (Inr st') \<and> positions_open grid st'"
proof -
  from adversaries_result [of st grid model gcounts goal] obtain a sa t1 b sb t2 st' where
    r: "ai_a_turn (ai_pos st) (player_pos st) grid (traps st) (this_game_moves st) model gcounts
          (ai_stunned st) goal (ai2_pos st) = Some (Inr (a, sa, t1))"
       "ai_b_turn (ai2_pos st) (player_pos st) grid t1 (ai2_stunned st) a = (b, sb, t2)"
       "adversaries grid goal model gcounts st = Some (Inr st')"
       "ai_pos st' = a" "ai2_pos st' = b" "player_pos st' = player_pos st"
    by blast
  have "\<exists>res. ai_a_turn (ai_pos st) (player_pos st) grid (traps st) (this_game_moves st) model
          gcounts (ai_stunned st) goal (ai2_pos st) = Some (Inr res) \<and> open_cell grid (fst res)"
  proof (rule ai_a_turn_cell_invariant [where Q = "open_cell grid"])
    show "open_cell grid (ai_pos st)"
      using po by (simp add: positions_open_def)
  next
    fix p s
    assume "s \<in> adjacent grid p \<or> s \<in> set (candidates grid p (ai2_pos st))"
    then show "open_cell grid s"
      using adjacent_in_game [OF gg] candidates_in_game by blast
  qed
  with r(1) have a: "open_cell grid a" by auto
  have "open_cell grid (fst (ai_b_turn (ai2_pos st) (player_pos st) grid t1 (ai2_stunned st) a))"
  proof (rule ai_b_turn_cell_invariant [where Q = "open_cell grid"])
    show "open_cell grid (ai2_pos st)"
      using po by (simp add: positions_open_def)
  next
    fix p s
    assume "s \<in> set (candidates grid p a)"
    then show "open_cell grid s" by (rule candidates_in_game)
  qed
  with r(2) have b: "open_cell grid b" by simp
  from po have "open_cell grid (player_pos st)"
    by (simp add: positions_open_def)
  with a b r show ?thesis
    by (auto simp: positions_open_def)
qed

lemma player_action_open:
  assumes "positions_open grid st" "player_action ch grid st = Inr st1"
  shows "positions_open grid st1"
proof -
  from player_action_result [of ch grid st] assms(2) have
    r: "ai_pos st1 = ai_pos st" "ai2_pos st1 = ai2_pos st"
       "player_pos st1 = player_pos st
          \<or> (\<exists>l. try_move (player_pos st) l grid = Inr (player_pos st1))"
    by auto
  from assms(1) have p: "open_cell grid (player_pos st)"
    by (simp add: positions_open_def)
  from r(3) have "open_cell grid (player_pos st1)"
  proof
    assume "player_pos st1 = player_pos st"
    with p show ?thesis by simp
  next
    assume "\<exists>l. try_move (player_pos st) l grid = Inr (player_pos st1)"
    then obtain l where "try_move (player_pos st) l grid = Inr (player_pos st1)" ..
    with p show ?thesis by (rule try_move_open)
  qed
  with assms(1) r(1,2) show ?thesis
    by (simp add: positions_open_def)
qed

text \<open>
  A round of the game loop returns; when it ends the game, it has saved one record
  with one of the three results.
\<close>

lemma game_turn_result:
  "\<exists>out. game_turn grid goal model gcounts ch st path = Some (Inr out)
     \<and> (case out of
          Playing st' \<Rightarrow> ch \<noteq> ord_q
        | Terminal result st' path' \<Rightarrow>
            result \<in> {''quit'', ''win'', ''loss''}
            \<and> path' = save_game (this_game_moves st') result path (successful_traps st'))
     \<and> (game_grid grid \<and> positions_open grid st \<longrightarrow> positions_open grid (outcome_state out))"
proof (cases "ch = ord_q")
  case True
  then show ?thesis
    by (simp add: game_turn_def Let_def positions_open_def)
next
  case nq: False
  let ?st = "st\<lparr>msg := []\<rparr>"
  have po0: "positions_open grid st \<longrightarrow> positions_open grid ?st"
    by (simp add: positions_open_def)
  obtain st1 where st1: "player_action ch grid ?st = Inr st1"
    using player_action_result [of ch grid ?st] by blast
  have po1: "positions_open grid st \<longrightarrow> positions_open grid st1"
    using po0 player_action_open [OF _ st1] by blast
  show ?thesis
  proof (cases "player_pos st1 = goal")
    case True
    have "game_turn grid goal model gcounts ch st path
            = Some (Inr (Terminal ''win'' st1
                (save_game (this_game_moves st1) ''win'' path (successful_traps st1))))"
      using nq st1 True by (simp add: game_turn_def Let_def)
    with po1 show ?thesis by simp
  next
    case ng: False
    obtain st2 where st2: "adversaries grid goal model gcounts st1 = Some (Inr st2)"
      using adversaries_result [of st1 grid model gcounts goal] by blast
    have po2: "game_grid grid \<and> positions_open grid st \<longrightarrow> positions_open grid st2"
      using po1 adversaries_open [of grid st1 goal model gcounts] st2 by auto
    show ?thesis
    proof (cases "ai_pos st2 = player_pos st2 \<or> ai2_pos st2 = player_pos st2")
      case True
      have "game_turn grid goal model gcounts ch st path
              = Some (Inr (Terminal ''loss'' st2
                  (save_game (this_game_moves st2) ''loss'' path (successful_traps st2))))"
        using nq st1 ng st2 True by (simp add: game_turn_def Let_def)
      with po2 show ?thesis by simp
    next
      case False
      have "game_turn grid goal model gcounts ch st path
              = Some (Inr (Playing (st2\<lparr>turn := turn st2 + 1\<rparr>)))"
        using nq st1 ng st2 False by (simp add: game_turn_def Let_def)
      moreover have "positions_open grid st2
          \<longrightarrow> positions_open grid (st2\<lparr>turn := turn st2 + 1\<rparr>)"
        by (simp add: positions_open_def)
      ultimately show ?thesis using po2 nq by simp
    qed
  qed
qed

lemma main_loop_result:
  "\<exists>out. main_loop grid goal model gcounts chs st path = Some (Inr out)
     \<and> (case out of
          Playing st' \<Rightarrow> ord_q \<notin> set chs
        | Terminal result st' path' \<Rightarrow>
            result \<in> {''quit'', ''win'', ''loss''}
            \<and> path' = save_game (this_game_moves st') result path (successful_traps st'))
     \<and> (game_grid grid \<and> positions_open grid st \<longrightarrow> positions_open grid (outcome_state out))"
proof (induction chs arbitrary: st)
  case Nil
  then show ?case by simp
next
  case (Cons ch chs)
  from game_turn_result [of grid goal model gcounts ch st path] obtain out where
    out: "game_turn grid goal model gcounts ch st path = Some (Inr out)"
      "case out of
          Playing st' \<Rightarrow> ch \<noteq> ord_q
        | Terminal result st' path' \<Rightarrow>
            result \<in> {''quit'', ''win'', ''loss''}
            \<and> path' = save_game (this_game_moves st') result path (successful_traps st')"
      "game_grid grid \<and> positions_open grid st \<longrightarrow> positions_open grid (outcome_state out)"
    by blast
  show ?case
  proof (cases out)
    case (Playing st')
    from Cons.IH [of st'] obtain out' where
      out': "main_loop grid goal model gcounts chs st' path = Some (Inr out')"
        "case out' of
          Playing st'' \<Rightarrow> ord_q \<notin> set chs
        | Terminal result st'' path' \<Rightarrow>
            result \<in> {''quit'', ''win'', ''loss''}
            \<and> path' = save_game (this_game_moves st'') result path (successful_traps st'')"
        "game_grid grid \<and> positions_open grid st' \<longrightarrow> positions_open grid (outcome_state out')"
      by blast
    have "main_loop grid goal model gcounts (ch # chs) st path = Some (Inr out')"
      using out(1) Playing out'(1) by simp
    moreover have "case out' of
          Playing st'' \<Rightarrow> ord_q \<notin> set (ch # chs)
        | Terminal result st'' path' \<Rightarrow>
            result \<in> {''quit'', ''win'', ''loss''}
            \<and> path' = save_game (this_game_moves st'') result path (successful_traps st'')"
      using out'(2) out(2) Playing by (cases out') auto
    moreover have "game_grid grid \<and> positions_open grid st
        \<longrightarrow> positions_open grid (outcome_state out')"
      using out(3) out'(3) Playing by simp
    ultimately show ?thesis by blast
  next
    case (Terminal result st' path')
    have "main_loop grid goal model gcounts (ch # chs) st path = Some (Inr out)"
      using out(1) Terminal by simp
    with out(2,3) Terminal show ?thesis by auto
  qed
qed



text \<open>
  Claim C10. On a game grid, from a state whose player and adversaries stand on cells
  that are in bounds and not walls: \<^verbatim>\<open>try_move\<close> returns such a cell, each adversary's
  turn ends on such a cell, and after a round of the game loop, after any number of
  rounds, and at the end of \<^verbatim>\<open>main\<close> started from these cells, all three stand on such
  cells. A cell that is in bounds and \<^verbatim>\<open>EMPTY\<close> is such a cell.
\<close>

theorem positions_stay_open:
  assumes "game_grid grid" and "positions_open grid st"
  shows "(\<forall>p. try_move (player_pos st) move_label grid = Inr p \<longrightarrow> open_cell grid p)
     \<and> (\<exists>res. ai_a_turn (ai_pos st) ppos grid trs mvs model gcounts stunned goal a2pos
                 = Some (Inr res)
              \<and> open_cell grid (fst res))
     \<and> open_cell grid (fst (ai_b_turn (ai2_pos st) ppos grid trs stunned apos))
     \<and> (\<exists>out. game_turn grid goal model gcounts ch st path = Some (Inr out)
              \<and> positions_open grid (outcome_state out))
     \<and> (\<exists>out. main_loop grid goal model gcounts chs st path = Some (Inr out)
              \<and> positions_open grid (outcome_state out))
     \<and> (player_pos st = pstart \<and> ai_pos st = astart \<and> ai2_pos st = bstart \<longrightarrow>
          (\<exists>out. main path grid pstart astart bstart goal chs = Some (Inr out)
                 \<and> positions_open grid (outcome_state out)))
     \<and> (\<forall>p. in_bounds p \<and> tile grid p = EMPTY \<longrightarrow> open_cell grid p)"
proof -
  from assms(2) have o: "open_cell grid (player_pos st)" "open_cell grid (ai_pos st)"
    "open_cell grid (ai2_pos st)"
    by (simp_all add: positions_open_def)
  have 1: "\<forall>p. try_move (player_pos st) move_label grid = Inr p \<longrightarrow> open_cell grid p"
    using try_move_open [OF o(1)] by blast
  have 2: "\<exists>res. ai_a_turn (ai_pos st) ppos grid trs mvs model gcounts stunned goal a2pos
                 = Some (Inr res)
              \<and> open_cell grid (fst res)"
  proof (rule ai_a_turn_cell_invariant [where Q = "open_cell grid"])
    show "open_cell grid (ai_pos st)" by (rule o(2))
  next
    fix p s
    assume "s \<in> adjacent grid p \<or> s \<in> set (candidates grid p a2pos)"
    then show "open_cell grid s"
      using adjacent_in_game [OF assms(1)] candidates_in_game by blast
  qed
  have 3: "open_cell grid (fst (ai_b_turn (ai2_pos st) ppos grid trs stunned apos))"
  proof (rule ai_b_turn_cell_invariant [where Q = "open_cell grid"])
    show "open_cell grid (ai2_pos st)" by (rule o(3))
  next
    fix p s
    assume "s \<in> set (candidates grid p apos)"
    then show "open_cell grid s" by (rule candidates_in_game)
  qed
  have 4: "\<exists>out. game_turn grid goal model gcounts ch st path = Some (Inr out)
              \<and> positions_open grid (outcome_state out)"
    using game_turn_result [of grid goal model gcounts ch st path] assms by blast
  have 5: "\<exists>out. main_loop grid goal model gcounts chs st path = Some (Inr out)
              \<and> positions_open grid (outcome_state out)"
    using main_loop_result [of grid goal model gcounts chs st path] assms by blast
  have 6: "player_pos st = pstart \<and> ai_pos st = astart \<and> ai2_pos st = bstart \<longrightarrow>
          (\<exists>out. main path grid pstart astart bstart goal chs = Some (Inr out)
                 \<and> positions_open grid (outcome_state out))"
  proof
    assume e: "player_pos st = pstart \<and> ai_pos st = astart \<and> ai2_pos st = bstart"
    obtain model0 gcounts0 where b: "build_markov_model (load_memory path) MARKOV_ORDER
        = (model0, gcounts0)"
      by (cases "build_markov_model (load_memory path) MARKOV_ORDER")
    let ?st0 = "\<lparr>player_pos = pstart, ai_pos = astart, ai2_pos = bstart, traps = {},
               traps_left = NUM_TRAPS, this_game_moves = [], ai_stunned = 0, ai2_stunned = 0,
               msg = [], turn = 1, successful_traps = 0\<rparr>"
    have m: "main path grid pstart astart bstart goal chs
               = main_loop grid goal model0 gcounts0 chs ?st0 path"
      by (simp add: main_def b)
    have "positions_open grid ?st0"
      using o e by (simp add: positions_open_def)
    with main_loop_result [of grid goal model0 gcounts0 chs ?st0 path] assms(1) m
    show "\<exists>out. main path grid pstart astart bstart goal chs = Some (Inr out)
                 \<and> positions_open grid (outcome_state out)"
      by auto
  qed
  have 7: "\<forall>p. in_bounds p \<and> tile grid p = EMPTY \<longrightarrow> open_cell grid p"
    by (simp add: open_cell_def EMPTY_def WALL_def)
  show ?thesis
    using 1 2 3 4 5 6 7 by blast
qed



theorem positions_stay_open_witness:
  "game_grid [''.........'', ''.........'', ''.........'', ''.........'', ''.........'',
          ''.........'', ''.........'', ''.........'', ''.........'']
   \<and> positions_open [''.........'', ''.........'', ''.........'', ''.........'', ''.........'',
          ''.........'', ''.........'', ''.........'', ''.........'']
        \<lparr>player_pos = (0, 0), ai_pos = (8, 8), ai2_pos = (8, 0), traps = {}, traps_left = 3,
         this_game_moves = [], ai_stunned = 0, ai2_stunned = 0, msg = [], turn = 1,
         successful_traps = 0\<rparr>
   \<and> main NoFile [''.........'', ''.........'', ''.........'', ''.........'', ''.........'',
          ''.........'', ''.........'', ''.........'', ''.........''] (0, 0) (8, 8) (8, 0) (0, 8) [KEY_DOWN, ord_t, KEY_RIGHT]
       = Some (Inr (Playing
           \<lparr>player_pos = (1, 1), ai_pos = (2, 8), ai2_pos = (3, 0), traps = {(1, 0)},
            traps_left = 2, this_game_moves = [''south'', ''east''], ai_stunned = 0,
            ai2_stunned = 0, msg = [], turn = 4, successful_traps = 0\<rparr>))
   \<and> positions_open [''.........'', ''.........'', ''.........'', ''.........'', ''.........'',
          ''.........'', ''.........'', ''.........'', ''.........'']
        \<lparr>player_pos = (1, 1), ai_pos = (2, 8), ai2_pos = (3, 0), traps = {(1, 0)},
         traps_left = 2, this_game_moves = [''south'', ''east''], ai_stunned = 0,
         ai2_stunned = 0, msg = [], turn = 4, successful_traps = 0\<rparr>"
proof -
  let ?g = "[''.........'', ''.........'', ''.........'', ''.........'', ''.........'',
          ''.........'', ''.........'', ''.........'', ''.........'']"
  let ?s0 = "\<lparr>player_pos = (0, 0), ai_pos = (8, 8), ai2_pos = (8, 0), traps = {}, traps_left = 3,
         this_game_moves = [], ai_stunned = 0, ai2_stunned = 0, msg = [], turn = 1,
         successful_traps = 0\<rparr>"
  let ?s1 = "\<lparr>player_pos = (1, 1), ai_pos = (2, 8), ai2_pos = (3, 0), traps = {(1, 0)},
         traps_left = 2, this_game_moves = [''south'', ''east''], ai_stunned = 0,
         ai2_stunned = 0, msg = [], turn = 4, successful_traps = 0\<rparr>"
  have gg: "game_grid ?g"
    by (simp add: game_grid_def rows_cover_def GRID_SIZE_def)
  have po: "positions_open ?g ?s0"
    by (simp add: positions_open_def open_cell_def in_bounds_def GRID_SIZE_def tile_def WALL_def)
  have e: "main NoFile ?g (0, 0) (8, 8) (8, 0) (0, 8) [KEY_DOWN, ord_t, KEY_RIGHT]
             = Some (Inr (Playing ?s1))"
    by code_simp
  have "\<exists>out. main NoFile ?g (0, 0) (8, 8) (8, 0) (0, 8) [KEY_DOWN, ord_t, KEY_RIGHT]
                 = Some (Inr out)
              \<and> positions_open ?g (outcome_state out)"
    using positions_stay_open [where grid = ?g and st = ?s0 and pstart = "(0, 0)"
        and astart = "(8, 8)" and bstart = "(8, 0)" and path = NoFile and goal = "(0, 8)"
        and chs = "[KEY_DOWN, ord_t, KEY_RIGHT]", OF gg po]
    by simp
  with e have "positions_open ?g ?s1" by simp
  with gg po e show ?thesis by blast
qed

end
